theory Spec2Isabelle
  imports Complex_Main "HOL-Library.Char_ord" "HOL-Library.List_Lexorder"
begin

section \<open>The type double\<close>

text \<open>
  The classifier of \<^verbatim>\<open>src/main.cpp\<close> keeps every count and every score in a C++
  \<^verbatim>\<open>double\<close>. A double is modelled as a real number or one of the three special values
  of IEEE 754. The special values are kept because the code can produce them:
  \<^verbatim>\<open>log(0)\<close> is minus infinity, \<^verbatim>\<open>x / 0\<close> is an infinity and \<^verbatim>\<open>0 / 0\<close> is not a number.
  Rounding of finite results and the sign of zero are not modelled: finite arithmetic is
  the arithmetic of the reals. The counts of the program are small whole numbers, which a
  double holds exactly. Where the choice between two labels depends on the last bit of a
  score, the scoring functions are used with the operations as a parameter (section
  ``Scoring and prediction with the rounding left open'').
\<close>

datatype double = Dbl real | PosInf | NegInf | NaN

text \<open>\<^verbatim>\<open>a + b\<close> on doubles.\<close>

fun dadd :: "double \<Rightarrow> double \<Rightarrow> double" where
  "dadd NaN _ = NaN"
| "dadd _ NaN = NaN"
| "dadd (Dbl a) (Dbl b) = Dbl (a + b)"
| "dadd PosInf NegInf = NaN"
| "dadd NegInf PosInf = NaN"
| "dadd PosInf _ = PosInf"
| "dadd _ PosInf = PosInf"
| "dadd NegInf _ = NegInf"
| "dadd _ NegInf = NegInf"

text \<open>\<^verbatim>\<open>a / b\<close> on doubles: a finite quotient, or the IEEE result of dividing by zero
  or by an infinity.\<close>

fun ddiv :: "double \<Rightarrow> double \<Rightarrow> double" where
  "ddiv NaN _ = NaN"
| "ddiv _ NaN = NaN"
| "ddiv (Dbl a) (Dbl b) =
     (if b = 0 then (if a = 0 then NaN else if 0 < a then PosInf else NegInf)
      else Dbl (a / b))"
| "ddiv (Dbl a) _ = Dbl 0"
| "ddiv PosInf (Dbl b) = (if 0 \<le> b then PosInf else NegInf)"
| "ddiv NegInf (Dbl b) = (if 0 \<le> b then NegInf else PosInf)"
| "ddiv _ _ = NaN"

text \<open>\<^verbatim>\<open>log(x)\<close> of \<^verbatim>\<open>math.h\<close>, the natural logarithm.\<close>

fun dlog :: "double \<Rightarrow> double" where
  "dlog (Dbl x) = (if x < 0 then NaN else if x = 0 then NegInf else Dbl (ln x))"
| "dlog PosInf = PosInf"
| "dlog NegInf = NaN"
| "dlog NaN = NaN"

text \<open>\<^verbatim>\<open>a > b\<close> on doubles: false whenever one side is not a number.\<close>

fun dgt :: "double \<Rightarrow> double \<Rightarrow> bool" where
  "dgt NaN _ = False"
| "dgt _ NaN = False"
| "dgt (Dbl a) (Dbl b) = (b < a)"
| "dgt PosInf PosInf = False"
| "dgt PosInf _ = True"
| "dgt _ PosInf = False"
| "dgt NegInf _ = False"
| "dgt _ NegInf = True"

text \<open>
  \<^verbatim>\<open>x == 0\<close> and \<^verbatim>\<open>x != 0\<close> on a double are the HOL (dis)equality with \<open>Dbl 0\<close>:
  a NaN is not equal to zero in C++ either.
\<close>

instantiation double :: comm_monoid_add
begin

definition zero_double :: double where
  "zero_double = Dbl 0"

definition plus_double :: "double \<Rightarrow> double \<Rightarrow> double" where
  "plus_double = dadd"

instance
proof
  fix a b c :: double
  show "a + b + c = a + (b + c)"
    unfolding plus_double_def by (cases a; cases b; cases c) simp_all
  show "a + b = b + a"
    unfolding plus_double_def by (cases a; cases b) simp_all
  show "0 + a = a"
    unfolding plus_double_def zero_double_def by (cases a) simp_all
qed

end

section \<open>std::map and std::set with string keys\<close>

text \<open>
  A \<^verbatim>\<open>std::map<string, V>\<close> is modelled by the list of its entries in iteration order,
  which is the ascending order of the keys (\<^verbatim>\<open>std::less<string>\<close>: bytewise
  lexicographic, the order of \<open>string\<close> here). A \<^verbatim>\<open>std::set<string>\<close> is the list
  of its elements in the same order.
\<close>

type_synonym 'v smap = "(string \<times> 'v) list"

text \<open>\<^verbatim>\<open>m[k] = v\<close> once the place of \<open>k\<close> is known: insert or overwrite.\<close>

fun assign :: "string \<Rightarrow> 'v \<Rightarrow> 'v smap \<Rightarrow> 'v smap" where
  "assign k v [] = [(k, v)]"
| "assign k v ((k', v') # m) =
     (if k < k' then (k, v) # (k', v') # m
      else if k = k' then (k, v) # m
      else (k', v') # assign k v m)"

text \<open>
  \<^verbatim>\<open>m[k]\<close>: \<^verbatim>\<open>operator[]\<close> returns the value stored under \<open>k\<close>; when there is none it
  first inserts the value-initialised default \<open>d\<close> (0.0 for a double, the empty map for a
  map). The map after the access is returned with the value.
\<close>

definition subscript :: "'v smap \<Rightarrow> string \<Rightarrow> 'v \<Rightarrow> 'v \<times> 'v smap" where
  "subscript m k d = (case map_of m k of None \<Rightarrow> (d, assign k d m) | Some v \<Rightarrow> (v, m))"

text \<open>\<^verbatim>\<open>m[k] += 1\<close>.\<close>

definition increment :: "double smap \<Rightarrow> string \<Rightarrow> double smap" where
  "increment m k = (let (v, m1) = subscript m k (Dbl 0) in assign k (dadd v (Dbl 1)) m1)"

text \<open>\<^verbatim>\<open>mm[l][w]\<close> on the nested map: both accesses may insert.\<close>

definition subscript2 :: "double smap smap \<Rightarrow> string \<Rightarrow> string \<Rightarrow> double \<times> double smap smap" where
  "subscript2 mm l w =
     (let (inner, mm1) = subscript mm l [];
          (v, inner1) = subscript inner w (Dbl 0)
      in (v, assign l inner1 mm1))"

text \<open>\<^verbatim>\<open>mm[l][w] += 1\<close>.\<close>

definition increment2 :: "double smap smap \<Rightarrow> string \<Rightarrow> string \<Rightarrow> double smap smap" where
  "increment2 mm l w =
     (let (inner, mm1) = subscript mm l [] in assign l (increment inner w) mm1)"

text \<open>\<^verbatim>\<open>words.insert(word)\<close> on a \<^verbatim>\<open>std::set<string>\<close>.\<close>

fun set_insert :: "string \<Rightarrow> string list \<Rightarrow> string list" where
  "set_insert w [] = [w]"
| "set_insert w (x # xs) =
     (if w < x then w # x # xs
      else if w = x then x # xs
      else x # set_insert w xs)"

text \<open>What the map holds under a key, read without inserting: a missing count is 0.\<close>

definition count_of :: "double smap \<Rightarrow> string \<Rightarrow> double" where
  "count_of m k = (case map_of m k of None \<Rightarrow> Dbl 0 | Some v \<Rightarrow> v)"

definition joint_of :: "double smap smap \<Rightarrow> string \<Rightarrow> string \<Rightarrow> double" where
  "joint_of mm l w = (case map_of mm l of None \<Rightarrow> Dbl 0 | Some inner \<Rightarrow> count_of inner w)"

definition keys :: "'v smap \<Rightarrow> string list" where
  "keys m = map fst m"

section \<open>unique_words\<close>

text \<open>
  \<^verbatim>\<open>source >> word\<close> skips leading whitespace, then reads characters up to the next
  whitespace or the end of the stream; it fails when no character is left. Whitespace is
  what \<^verbatim>\<open>isspace\<close> accepts in the C locale: space, tab, line feed, vertical tab, form
  feed and carriage return.
\<close>

definition isspace :: "char \<Rightarrow> bool" where
  "isspace c = (c \<in> {CHR '' '', CHR 0x09, CHR 0x0A, CHR 0x0B, CHR 0x0C, CHR 0x0D})"

function extract_words :: "string \<Rightarrow> string list" where
  "extract_words s =
     (if dropWhile isspace s = [] then []
      else takeWhile (\<lambda>c. \<not> isspace c) (dropWhile isspace s)
           # extract_words (dropWhile (\<lambda>c. \<not> isspace c) (dropWhile isspace s)))"
  by pat_completeness auto
termination
proof (relation "measure length")
  fix s :: string
  assume ne: "dropWhile isspace s \<noteq> []"
  then obtain c cs where cs: "dropWhile isspace s = c # cs"
    by (cases "dropWhile isspace s") auto
  then have "\<not> isspace c"
    using hd_dropWhile [OF ne] by simp
  then have "length (dropWhile (\<lambda>c. \<not> isspace c) (dropWhile isspace s)) \<le> length cs"
    using cs by (simp add: length_dropWhile_le)
  also have "length cs < length (dropWhile isspace s)"
    using cs by simp
  also have "\<dots> \<le> length s"
    by (rule length_dropWhile_le)
  finally show "(dropWhile (\<lambda>c. \<not> isspace c) (dropWhile isspace s), s) \<in> measure length"
    by simp
qed simp

declare extract_words.simps [simp del]

definition unique_words :: "string \<Rightarrow> string list" where
  "unique_words str = foldl (\<lambda>words word. set_insert word words) [] (extract_words str)"

section \<open>The classifier\<close>

text \<open>
  A row delivered by \<^verbatim>\<open>csvstream\<close> (a library outside the repository) is a map from
  column name to cell. The classifier reads the columns \<^verbatim>\<open>tag\<close> and \<^verbatim>\<open>content\<close> only, so
  a row is modelled by these two cells; a row map that is still empty reads as two empty
  strings.
\<close>

record row =
  tag :: string
  content :: string

record classifier =
  total_posts :: double
  vocab_size :: double
  word_count :: "double smap"
  label_count :: "double smap"
  C_w_count :: "double smap smap"
  post :: row
  correct_post :: row

text \<open>
  A default-constructed \<^verbatim>\<open>Classifier\<close>: the maps are empty, and the two doubles have no
  initialiser, so their values are whatever the caller finds there.
\<close>

definition Classifier_new :: "double \<Rightarrow> double \<Rightarrow> classifier" where
  "Classifier_new tp vs =
     \<lparr>total_posts = tp, vocab_size = vs, word_count = [], label_count = [],
      C_w_count = [], post = \<lparr>tag = [], content = []\<rparr>,
      correct_post = \<lparr>tag = [], content = []\<rparr>\<rparr>"

subsection \<open>Scoring\<close>

definition calc_log_prior :: "classifier \<Rightarrow> string \<Rightarrow> double \<times> classifier" where
  "calc_log_prior c label =
     (let (lc, m) = subscript (label_count c) label (Dbl 0)
      in (dlog (ddiv lc (total_posts c)), c\<lparr>label_count := m\<rparr>))"

text \<open>
  The conditions are evaluated left to right with the short circuit of \<^verbatim>\<open>&&\<close>; each
  \<^verbatim>\<open>operator[]\<close> acts on the maps as the previous one left them. When the first
  comparison is false the second operand of \<^verbatim>\<open>&&\<close> is skipped, and the \<^verbatim>\<open>else if\<close> makes
  the same access to \<open>word_count\<close>: in both cases \<open>word_count[word]\<close> is accessed once
  before a branch is taken.
\<close>

definition calc_log_likelihood :: "classifier \<Rightarrow> string \<Rightarrow> string \<Rightarrow> double \<times> classifier" where
  "calc_log_likelihood c label word =
     (let (cw, mm) = subscript2 (C_w_count c) label word;
          c1 = c\<lparr>C_w_count := mm\<rparr>;
          (wc, m) = subscript (word_count c1) word (Dbl 0);
          c2 = c1\<lparr>word_count := m\<rparr>
      in if cw = Dbl 0 \<and> wc \<noteq> Dbl 0 then
           (let (wc1, m1) = subscript (word_count c2) word (Dbl 0)
            in (dlog (ddiv wc1 (total_posts c2)), c2\<lparr>word_count := m1\<rparr>))
         else if wc = Dbl 0 then
           (dlog (ddiv (Dbl 1) (total_posts c2)), c2)
         else
           (let (cw1, mm1) = subscript2 (C_w_count c2) label word;
                c3 = c2\<lparr>C_w_count := mm1\<rparr>;
                (lc, lm) = subscript (label_count c3) label (Dbl 0)
            in (dlog (ddiv cw1 lc), c3\<lparr>label_count := lm\<rparr>)))"

fun sum_likelihoods :: "string \<Rightarrow> string list \<Rightarrow> double \<times> classifier \<Rightarrow> double \<times> classifier" where
  "sum_likelihoods label [] (score, c) = (score, c)"
| "sum_likelihoods label (word # ws) (score, c) =
     (let (ll, c1) = calc_log_likelihood c label word
      in sum_likelihoods label ws (dadd score ll, c1))"

definition calc_log_prob_score :: "classifier \<Rightarrow> string \<Rightarrow> double \<times> classifier" where
  "calc_log_prob_score c label =
     (let unique_post_words = unique_words (content (correct_post c));
          (log_prior, c1) = calc_log_prior c label
      in sum_likelihoods label unique_post_words (log_prior, c1))"

subsection \<open>Training\<close>

text \<open>
  The training file is the list of its rows, in file order. \<^verbatim>\<open>csvin >> post\<close> stores each
  row in the field \<open>post\<close>, and the body of the loop reads the tag and the content from
  there. The maps are not cleared: only \<open>total_posts\<close> is reset. What the last, failing
  read leaves in \<open>post\<close> is not modelled: the field keeps the last row here, and nothing
  reads it before the next read overwrites it.
\<close>

definition train_word :: "classifier \<Rightarrow> string \<Rightarrow> classifier" where
  "train_word c word =
     (let c1 = c\<lparr>word_count := increment (word_count c) word\<rparr>
      in c1\<lparr>C_w_count := increment2 (C_w_count c1) (tag (post c1)) word\<rparr>)"

definition train_post :: "classifier \<Rightarrow> row \<Rightarrow> classifier" where
  "train_post c r =
     (let c1 = c\<lparr>post := r\<rparr>;
          c2 = c1\<lparr>label_count := increment (label_count c1) (tag (post c1))\<rparr>;
          unique_words_set = unique_words (content (post c2));
          c3 = foldl train_word c2 unique_words_set
      in c3\<lparr>total_posts := dadd (total_posts c3) (Dbl 1)\<rparr>)"

definition train_classifier :: "classifier \<Rightarrow> row list \<Rightarrow> classifier" where
  "train_classifier c rows =
     (let c1 = foldl train_post (c\<lparr>total_posts := Dbl 0\<rparr>) rows
      in c1\<lparr>vocab_size := Dbl (real (length (word_count c1)))\<rparr>)"

subsection \<open>Prediction\<close>

text \<open>
  \<^verbatim>\<open>prob_scores[0]\<close> on an empty vector reads out of bounds: the C++ standard gives the
  program no behaviour there. It is an outcome of its own, not a value and not a reported
  error.
\<close>

datatype 'a outcome = Returns 'a | Undefined_Behaviour

text \<open>
  The first loop of \<^verbatim>\<open>predict_label\<close> walks the entries of \<open>C_w_count\<close> in key order and
  scores each key. Scoring a key may insert words under that key, which is already in the
  map, so the keys walked are the keys the map has when the loop starts (lemma
  \<open>keys_C_w_count_calc_log_prob_score\<close> below).
\<close>

fun score_labels :: "string list \<Rightarrow> classifier \<Rightarrow> (string \<times> double) list \<times> classifier" where
  "score_labels [] c = ([], c)"
| "score_labels (label # ls) c =
     (let (s, c1) = calc_log_prob_score c label;
          (prob_scores, c2) = score_labels ls c1
      in ((label, s) # prob_scores, c2))"

text \<open>The second loop, from index 0, with the running maximum and its label.\<close>

fun max_scan :: "(string \<times> double) list \<Rightarrow> string \<times> double \<Rightarrow> string \<times> double" where
  "max_scan [] (prediction, max_score) = (prediction, max_score)"
| "max_scan ((l, s) # ps) (prediction, max_score) =
     (if dgt s max_score then max_scan ps (l, s)
      else max_scan ps (prediction, max_score))"

definition predict_label :: "classifier \<Rightarrow> (string \<times> double) outcome \<times> classifier" where
  "predict_label c =
     (let (prob_scores, c1) = score_labels (keys (C_w_count c)) c
      in case prob_scores of
           [] \<Rightarrow> (Undefined_Behaviour, c1)
         | (l0, s0) # _ \<Rightarrow> (Returns (max_scan prob_scores (l0, s0)), c1))"

text \<open>
  \<^verbatim>\<open>test_classifier\<close> without its printing: each row of the test file is stored in
  \<open>correct_post\<close>, then \<^verbatim>\<open>predict_label\<close> runs on it.
\<close>

fun test_rows :: "row list \<Rightarrow> classifier \<Rightarrow> int \<times> int \<Rightarrow> (int \<times> int) outcome \<times> classifier" where
  "test_rows [] c (num_correct, num_posts) = (Returns (num_correct, num_posts), c)"
| "test_rows (r # rs) c (num_correct, num_posts) =
     (case predict_label (c\<lparr>correct_post := r\<rparr>) of
        (Undefined_Behaviour, c1) \<Rightarrow> (Undefined_Behaviour, c1)
      | (Returns label_score, c1) \<Rightarrow>
          test_rows rs c1
            (if tag (correct_post c1) = fst label_score then num_correct + 1 else num_correct,
             num_posts + 1))"

definition test_classifier :: "classifier \<Rightarrow> row list \<Rightarrow> (int \<times> int) outcome \<times> classifier" where
  "test_classifier c rows = test_rows rows c (0, 0)"

section \<open>Scoring and prediction with the rounding left open\<close>

text \<open>
  The scoring functions call \<^verbatim>\<open>log\<close> and divide and add doubles. Each of these operations
  returns a double close to its exact result; which one is decided by the machine and the
  C library, not by the program. The functions of this section are the scoring and
  prediction functions of the source once more, with the three operations as a parameter.
  They make the same accesses to the maps, in the same order, as the functions above, and
  the loop over the words adds in the order of the loop. What is proved of them holds for
  every way of rounding. Comparisons of doubles do not round, so \<^verbatim>\<open>>\<close> and \<^verbatim>\<open>== 0\<close>
  stay as they are. With \<open>exact_fpu\<close> the functions are the ones above (lemmas
  \<open>calc_log_prior_exact\<close> to \<open>predict_label_exact\<close>). Training only adds 1 to whole
  numbers, which is exact in a double below \<open>2^53\<close>, so it has no such parameter.
\<close>

text \<open>The three operations: \<^verbatim>\<open>log\<close>, \<^verbatim>\<open>/\<close> and \<^verbatim>\<open>+\<close> on doubles.\<close>

record fpu =
  fp_log :: "double \<Rightarrow> double"
  fp_div :: "double \<Rightarrow> double \<Rightarrow> double"
  fp_add :: "double \<Rightarrow> double \<Rightarrow> double"

text \<open>The operations without rounding, as in the sections above.\<close>

definition exact_fpu :: fpu where
  "exact_fpu = \<lparr>fp_log = dlog, fp_div = ddiv, fp_add = dadd\<rparr>"

definition calc_log_prior_fp :: "fpu \<Rightarrow> classifier \<Rightarrow> string \<Rightarrow> double \<times> classifier" where
  "calc_log_prior_fp fp c label =
     (let (lc, m) = subscript (label_count c) label (Dbl 0)
      in (fp_log fp (fp_div fp lc (total_posts c)), c\<lparr>label_count := m\<rparr>))"

definition calc_log_likelihood_fp ::
  "fpu \<Rightarrow> classifier \<Rightarrow> string \<Rightarrow> string \<Rightarrow> double \<times> classifier" where
  "calc_log_likelihood_fp fp c label word =
     (let (cw, mm) = subscript2 (C_w_count c) label word;
          c1 = c\<lparr>C_w_count := mm\<rparr>;
          (wc, m) = subscript (word_count c1) word (Dbl 0);
          c2 = c1\<lparr>word_count := m\<rparr>
      in if cw = Dbl 0 \<and> wc \<noteq> Dbl 0 then
           (let (wc1, m1) = subscript (word_count c2) word (Dbl 0)
            in (fp_log fp (fp_div fp wc1 (total_posts c2)), c2\<lparr>word_count := m1\<rparr>))
         else if wc = Dbl 0 then
           (fp_log fp (fp_div fp (Dbl 1) (total_posts c2)), c2)
         else
           (let (cw1, mm1) = subscript2 (C_w_count c2) label word;
                c3 = c2\<lparr>C_w_count := mm1\<rparr>;
                (lc, lm) = subscript (label_count c3) label (Dbl 0)
            in (fp_log fp (fp_div fp cw1 lc), c3\<lparr>label_count := lm\<rparr>)))"

fun sum_likelihoods_fp ::
  "fpu \<Rightarrow> string \<Rightarrow> string list \<Rightarrow> double \<times> classifier \<Rightarrow> double \<times> classifier" where
  "sum_likelihoods_fp fp label [] (score, c) = (score, c)"
| "sum_likelihoods_fp fp label (word # ws) (score, c) =
     (let (ll, c1) = calc_log_likelihood_fp fp c label word
      in sum_likelihoods_fp fp label ws (fp_add fp score ll, c1))"

definition calc_log_prob_score_fp :: "fpu \<Rightarrow> classifier \<Rightarrow> string \<Rightarrow> double \<times> classifier" where
  "calc_log_prob_score_fp fp c label =
     (let unique_post_words = unique_words (content (correct_post c));
          (log_prior, c1) = calc_log_prior_fp fp c label
      in sum_likelihoods_fp fp label unique_post_words (log_prior, c1))"

fun score_labels_fp ::
  "fpu \<Rightarrow> string list \<Rightarrow> classifier \<Rightarrow> (string \<times> double) list \<times> classifier" where
  "score_labels_fp fp [] c = ([], c)"
| "score_labels_fp fp (label # ls) c =
     (let (s, c1) = calc_log_prob_score_fp fp c label;
          (prob_scores, c2) = score_labels_fp fp ls c1
      in ((label, s) # prob_scores, c2))"

definition predict_label_fp :: "fpu \<Rightarrow> classifier \<Rightarrow> (string \<times> double) outcome \<times> classifier" where
  "predict_label_fp fp c =
     (let (prob_scores, c1) = score_labels_fp fp (keys (C_w_count c)) c
      in case prob_scores of
           [] \<Rightarrow> (Undefined_Behaviour, c1)
         | (l0, s0) # _ \<Rightarrow> (Returns (max_scan prob_scores (l0, s0)), c1))"

section \<open>Reading the model\<close>

text \<open>
  The values the scoring functions compute, written over the counts as the maps hold them
  (a missing entry reads as 0). The lemmas below show that the functions of the program
  return these values.
\<close>

definition log_prior_of :: "classifier \<Rightarrow> string \<Rightarrow> double" where
  "log_prior_of c C = dlog (ddiv (count_of (label_count c) C) (total_posts c))"

definition log_likelihood_of :: "classifier \<Rightarrow> string \<Rightarrow> string \<Rightarrow> double" where
  "log_likelihood_of c C w =
     (if joint_of (C_w_count c) C w = Dbl 0 \<and> count_of (word_count c) w \<noteq> Dbl 0 then
        dlog (ddiv (count_of (word_count c) w) (total_posts c))
      else if count_of (word_count c) w = Dbl 0 then
        dlog (ddiv (Dbl 1) (total_posts c))
      else
        dlog (ddiv (joint_of (C_w_count c) C w) (count_of (label_count c) C)))"

definition log_score_of :: "classifier \<Rightarrow> string \<Rightarrow> string \<Rightarrow> double" where
  "log_score_of c C text =
     log_prior_of c C + (\<Sum>w\<leftarrow>unique_words text. log_likelihood_of c C w)"

text \<open>
  The same values with the rounding left open; the sum follows the order of the loop.
\<close>

definition log_likelihood_of_fp :: "fpu \<Rightarrow> classifier \<Rightarrow> string \<Rightarrow> string \<Rightarrow> double" where
  "log_likelihood_of_fp fp c C w =
     (if joint_of (C_w_count c) C w = Dbl 0 \<and> count_of (word_count c) w \<noteq> Dbl 0 then
        fp_log fp (fp_div fp (count_of (word_count c) w) (total_posts c))
      else if count_of (word_count c) w = Dbl 0 then
        fp_log fp (fp_div fp (Dbl 1) (total_posts c))
      else
        fp_log fp (fp_div fp (joint_of (C_w_count c) C w) (count_of (label_count c) C)))"

definition log_score_of_fp :: "fpu \<Rightarrow> classifier \<Rightarrow> string \<Rightarrow> string \<Rightarrow> double" where
  "log_score_of_fp fp c C text =
     foldl (\<lambda>score w. fp_add fp score (log_likelihood_of_fp fp c C w))
       (fp_log fp (fp_div fp (count_of (label_count c) C) (total_posts c)))
       (unique_words text)"

text \<open>
  Two states of the classifier agree on everything a scoring function can read: the two
  doubles, every count read with the default 0, and the two rows.
\<close>

definition same_counts :: "classifier \<Rightarrow> classifier \<Rightarrow> bool" where
  "same_counts c c' \<longleftrightarrow>
     total_posts c' = total_posts c \<and> vocab_size c' = vocab_size c \<and>
     count_of (word_count c') = count_of (word_count c) \<and>
     count_of (label_count c') = count_of (label_count c) \<and>
     joint_of (C_w_count c') = joint_of (C_w_count c) \<and>
     post c' = post c \<and> correct_post c' = correct_post c"

text \<open>The five fields of the frequency model.\<close>

definition model_of :: "classifier \<Rightarrow> double \<times> double \<times> double smap \<times> double smap \<times> double smap smap" where
  "model_of c = (total_posts c, vocab_size c, word_count c, label_count c, C_w_count c)"

text \<open>
  A word of a string: a non-empty run of characters that are not whitespace, bounded on
  each side by a whitespace character or by the end of the string.
\<close>

definition is_word_of :: "string \<Rightarrow> string \<Rightarrow> bool" where
  "is_word_of s w \<longleftrightarrow>
     w \<noteq> [] \<and> \<not> list_ex isspace w \<and>
     (\<exists>pre suf. s = pre @ w @ suf \<and> (pre = [] \<or> isspace (last pre))
        \<and> (suf = [] \<or> isspace (hd suf)))"

text \<open>
  What training maintains. A map of counts holds whole numbers, positive under every key.
  The word tables are in key order, the joint counts of a word add up to its global count,
  the words of every label are words of \<open>word_count\<close>, and no label has an empty inner
  map. The label table is in key order, adds up to the number of posts read, and has every
  label of \<open>C_w_count\<close>.
\<close>

definition counts_ok :: "double smap \<Rightarrow> bool" where
  "counts_ok m \<longleftrightarrow>
     (\<forall>k. \<exists>n::nat. count_of m k = Dbl (real n) \<and> (k \<in> set (keys m) \<longrightarrow> 0 < n))"

definition words_inv :: "classifier \<Rightarrow> bool" where
  "words_inv c \<longleftrightarrow>
     sorted_wrt (<) (keys (word_count c)) \<and> sorted_wrt (<) (keys (C_w_count c)) \<and>
     (\<forall>w. (\<Sum>e\<leftarrow>C_w_count c. count_of (snd e) w) = count_of (word_count c) w) \<and>
     (\<forall>e\<in>set (C_w_count c). set (keys (snd e)) \<subseteq> set (keys (word_count c))) \<and>
     counts_ok (word_count c) \<and>
     (\<forall>e\<in>set (C_w_count c). counts_ok (snd e) \<and> snd e \<noteq> [])"

definition labels_inv :: "classifier \<Rightarrow> nat \<Rightarrow> bool" where
  "labels_inv c n \<longleftrightarrow>
     sorted_wrt (<) (keys (label_count c)) \<and>
     (\<Sum>e\<leftarrow>label_count c. snd e) = Dbl (real n) \<and>
     set (keys (C_w_count c)) \<subseteq> set (keys (label_count c)) \<and>
     counts_ok (label_count c)"

text \<open>The training rows of the end-to-end scenario, and rows with an empty content.\<close>

definition ex_rows :: "row list" where
  "ex_rows = [\<lparr>tag = ''math'', content = ''x y''\<rparr>, \<lparr>tag = ''cs'', content = ''y z''\<rparr>]"

definition ex_trained_model :: classifier where
  "ex_trained_model = train_classifier (Classifier_new (Dbl 0) (Dbl 0)) ex_rows"

definition ex_rows_empty_content :: "row list" where
  "ex_rows_empty_content = [\<lparr>tag = ''math'', content = ''''\<rparr>, \<lparr>tag = ''cs'', content = ''y''\<rparr>]"

section \<open>Properties of the maps\<close>

lemma map_of_assign: "map_of (assign k v m) = (map_of m)(k \<mapsto> v)"
  by (induction m) (auto simp: fun_upd_twist)

lemma set_keys_dom: "set (keys m) = dom (map_of m)"
  by (simp add: keys_def dom_map_of_conv_image_fst)

lemma set_keys_assign: "set (keys (assign k v m)) = insert k (set (keys m))"
  by (simp add: set_keys_dom map_of_assign)

lemma sorted_keys_assign:
  "sorted_wrt (<) (keys m) \<Longrightarrow> sorted_wrt (<) (keys (assign k v m))"
proof (induction m)
  case Nil
  then show ?case by (simp add: keys_def)
next
  case (Cons e m)
  obtain k' v' where e: "e = (k', v')" by (cases e)
  from Cons.prems have less: "\<forall>x\<in>set (keys m). k' < x" and sorted: "sorted_wrt (<) (keys m)"
    by (simp_all add: e keys_def)
  show ?case
  proof (cases "k < k'")
    case True
    then have "\<forall>x\<in>set (keys m). k < x" using less by auto
    then show ?thesis using True Cons.prems by (simp add: e keys_def)
  next
    case False
    show ?thesis
    proof (cases "k = k'")
      case True
      then show ?thesis using Cons.prems by (simp add: e keys_def)
    next
      case ne: False
      then have "k' < k" using False by auto
      then have "\<forall>x\<in>set (keys (assign k v m)). k' < x"
        using less by (simp add: set_keys_assign)
      then show ?thesis
        using False ne Cons.IH [OF sorted] by (simp add: e keys_def)
    qed
  qed
qed

lemma map_of_None_keys: "map_of m k = None \<longleftrightarrow> k \<notin> set (keys m)"
  by (simp add: keys_def map_of_eq_None_iff)

lemma map_of_Some_keys: "map_of m k = Some v \<Longrightarrow> k \<in> set (keys m)"
  using map_of_None_keys [of m k] by auto

lemma fst_subscript: "fst (subscript m k d) = (case map_of m k of None \<Rightarrow> d | Some v \<Rightarrow> v)"
  by (simp add: subscript_def split: option.splits)

lemma map_of_snd_subscript:
  "map_of (snd (subscript m k d)) = (case map_of m k of None \<Rightarrow> (map_of m)(k \<mapsto> d) | Some v \<Rightarrow> map_of m)"
  by (simp add: subscript_def map_of_assign split: option.splits)

lemma set_keys_snd_subscript: "set (keys (snd (subscript m k d))) = insert k (set (keys m))"
  by (auto simp: subscript_def set_keys_assign dest: map_of_Some_keys split: option.splits)

lemma sorted_keys_snd_subscript:
  "sorted_wrt (<) (keys m) \<Longrightarrow> sorted_wrt (<) (keys (snd (subscript m k d)))"
  by (simp add: subscript_def sorted_keys_assign split: option.splits)

lemma count_of_snd_subscript: "count_of (snd (subscript m k (Dbl 0))) k' = count_of m k'"
  by (simp add: count_of_def map_of_snd_subscript split: option.splits)

lemma fst_subscript_count_of: "fst (subscript m k (Dbl 0)) = count_of m k"
  by (simp add: fst_subscript count_of_def)

lemma map_of_increment:
  "map_of (increment m k) = (map_of m)(k \<mapsto> dadd (count_of m k) (Dbl 1))"
  by (auto simp: increment_def subscript_def map_of_assign count_of_def split: option.splits)

lemma count_of_increment:
  "count_of (increment m k) k' = (if k' = k then dadd (count_of m k) (Dbl 1) else count_of m k')"
  by (simp add: count_of_def map_of_increment)

lemma set_keys_increment: "set (keys (increment m k)) = insert k (set (keys m))"
  by (auto simp: increment_def subscript_def set_keys_assign split: option.splits)

lemma sorted_keys_increment:
  "sorted_wrt (<) (keys m) \<Longrightarrow> sorted_wrt (<) (keys (increment m k))"
  by (auto simp: increment_def subscript_def sorted_keys_assign split: option.splits)

lemma map_of_increment2:
  "map_of (increment2 mm l w) =
     (map_of mm)(l \<mapsto> increment (case map_of mm l of None \<Rightarrow> [] | Some inner \<Rightarrow> inner) w)"
  by (auto simp: increment2_def subscript_def map_of_assign split: option.splits)

lemma set_keys_increment2: "set (keys (increment2 mm l w)) = insert l (set (keys mm))"
  by (auto simp: increment2_def subscript_def set_keys_assign split: option.splits)

lemma sorted_keys_increment2:
  "sorted_wrt (<) (keys mm) \<Longrightarrow> sorted_wrt (<) (keys (increment2 mm l w))"
  by (auto simp: increment2_def subscript_def sorted_keys_assign split: option.splits)

lemma count_of_Nil: "count_of [] k = Dbl 0"
  by (simp add: count_of_def)

lemma joint_of_increment2:
  "joint_of (increment2 mm l w) l' w' =
     (if l' = l \<and> w' = w then dadd (joint_of mm l w) (Dbl 1) else joint_of mm l' w')"
  by (cases "map_of mm l")
     (simp_all add: joint_of_def map_of_increment2 count_of_increment count_of_Nil)

lemma fst_subscript2: "fst (subscript2 mm l w) = joint_of mm l w"
  by (auto simp: subscript2_def subscript_def joint_of_def count_of_def split: option.splits prod.splits)

lemma map_of_snd_subscript2:
  "map_of (snd (subscript2 mm l w)) =
     (map_of mm)(l \<mapsto> snd (subscript (case map_of mm l of None \<Rightarrow> [] | Some inner \<Rightarrow> inner) w (Dbl 0)))"
  by (auto simp: subscript2_def subscript_def map_of_assign split: option.splits prod.splits)

lemma joint_of_snd_subscript2: "joint_of (snd (subscript2 mm l w)) l' w' = joint_of mm l' w'"
  by (cases "map_of mm l")
     (simp_all add: joint_of_def map_of_snd_subscript2 count_of_snd_subscript count_of_Nil)

lemma set_keys_snd_subscript2: "set (keys (snd (subscript2 mm l w))) = insert l (set (keys mm))"
  by (auto simp: subscript2_def subscript_def set_keys_assign split: option.splits prod.splits)

lemma keys_assign_present:
  "sorted_wrt (<) (keys m) \<Longrightarrow> k \<in> set (keys m) \<Longrightarrow> keys (assign k v m) = keys m"
proof (induction m)
  case Nil
  then show ?case by (simp add: keys_def)
next
  case (Cons e m)
  obtain k' v' where e: "e = (k', v')" by (cases e)
  from Cons.prems have less: "\<forall>x\<in>set (keys m). k' < x" and sorted: "sorted_wrt (<) (keys m)"
    and mem: "k = k' \<or> k \<in> set (keys m)"
    by (auto simp add: e keys_def)
  then have "\<not> k < k'" by auto
  moreover have "k \<noteq> k' \<Longrightarrow> keys (assign k v m) = keys m"
    using Cons.IH [OF sorted] mem by simp
  ultimately show ?case by (auto simp: e keys_def)
qed

lemma keys_snd_subscript2_present:
  "sorted_wrt (<) (keys mm) \<Longrightarrow> l \<in> set (keys mm) \<Longrightarrow> keys (snd (subscript2 mm l w)) = keys mm"
  by (auto simp: subscript2_def subscript_def keys_assign_present map_of_None_keys split: option.splits prod.splits)

section \<open>Scoring returns the values read from the counts\<close>

lemma same_counts_refl: "same_counts c c"
  by (simp add: same_counts_def)

lemma same_counts_trans: "same_counts a b \<Longrightarrow> same_counts b c \<Longrightarrow> same_counts a c"
  by (simp add: same_counts_def)

lemma same_counts_log_prior_of: "same_counts c c' \<Longrightarrow> log_prior_of c' = log_prior_of c"
  by (auto simp: same_counts_def log_prior_of_def fun_eq_iff)

lemma same_counts_log_likelihood_of:
  "same_counts c c' \<Longrightarrow> log_likelihood_of c' = log_likelihood_of c"
  by (auto simp: same_counts_def log_likelihood_of_def fun_eq_iff)

lemma same_counts_log_score_of: "same_counts c c' \<Longrightarrow> log_score_of c' = log_score_of c"
  by (simp add: log_score_of_def fun_eq_iff same_counts_log_prior_of same_counts_log_likelihood_of)

lemma count_of_snd_subscript_fun: "count_of (snd (subscript m k (Dbl 0))) = count_of m"
  by (rule ext) (rule count_of_snd_subscript)

lemma joint_of_snd_subscript2_fun: "joint_of (snd (subscript2 mm l w)) = joint_of mm"
  by (intro ext) (rule joint_of_snd_subscript2)

lemma fst_calc_log_prior: "fst (calc_log_prior c l) = log_prior_of c l"
  by (simp add: calc_log_prior_def log_prior_of_def split_beta fst_subscript_count_of)

lemma same_counts_calc_log_prior: "same_counts c (snd (calc_log_prior c l))"
  by (simp add: calc_log_prior_def same_counts_def split_beta count_of_snd_subscript_fun)

lemma fst_calc_log_likelihood: "fst (calc_log_likelihood c l w) = log_likelihood_of c l w"
  by (simp add: calc_log_likelihood_def log_likelihood_of_def split_beta Let_def
      fst_subscript_count_of fst_subscript2 count_of_snd_subscript joint_of_snd_subscript2)

lemma same_counts_calc_log_likelihood: "same_counts c (snd (calc_log_likelihood c l w))"
  by (simp add: calc_log_likelihood_def same_counts_def split_beta Let_def
      count_of_snd_subscript_fun joint_of_snd_subscript2_fun)

lemma sum_likelihoods_value:
  "fst (sum_likelihoods l ws (s, c)) = s + (\<Sum>w\<leftarrow>ws. log_likelihood_of c l w)
   \<and> same_counts c (snd (sum_likelihoods l ws (s, c)))"
proof (induction ws arbitrary: s c)
  case Nil
  show ?case by (simp add: same_counts_refl)
next
  case (Cons w ws)
  obtain ll c1 where step: "calc_log_likelihood c l w = (ll, c1)"
    by (cases "calc_log_likelihood c l w")
  have ll: "ll = log_likelihood_of c l w"
    using fst_calc_log_likelihood [of c l w] step by simp
  have sc: "same_counts c c1"
    using same_counts_calc_log_likelihood [of c l w] step by simp
  from Cons.IH [of "dadd s ll" c1] show ?case
    using same_counts_trans [OF sc]
    by (simp add: step ll same_counts_log_likelihood_of [OF sc] plus_double_def [symmetric]
        add.assoc)
qed

lemma fst_calc_log_prob_score:
  "fst (calc_log_prob_score c l) = log_score_of c l (content (correct_post c))"
proof -
  obtain lp c1 where step: "calc_log_prior c l = (lp, c1)"
    by (cases "calc_log_prior c l")
  have lp: "lp = log_prior_of c l"
    using fst_calc_log_prior [of c l] step by simp
  have sc: "same_counts c c1"
    using same_counts_calc_log_prior [of c l] step by simp
  show ?thesis
    by (simp add: calc_log_prob_score_def step sum_likelihoods_value log_score_of_def lp
        same_counts_log_likelihood_of [OF sc])
qed

lemma same_counts_calc_log_prob_score: "same_counts c (snd (calc_log_prob_score c l))"
proof -
  obtain lp c1 where step: "calc_log_prior c l = (lp, c1)"
    by (cases "calc_log_prior c l")
  have sc: "same_counts c c1"
    using same_counts_calc_log_prior [of c l] step by simp
  show ?thesis
    using same_counts_trans [OF sc] sum_likelihoods_value
    by (simp add: calc_log_prob_score_def step)
qed

lemma score_labels_value:
  "fst (score_labels ls c) = map (\<lambda>l. (l, log_score_of c l (content (correct_post c)))) ls
   \<and> same_counts c (snd (score_labels ls c))"
proof (induction ls arbitrary: c)
  case Nil
  show ?case by (simp add: same_counts_refl)
next
  case (Cons l ls)
  obtain s c1 where step: "calc_log_prob_score c l = (s, c1)"
    by (cases "calc_log_prob_score c l")
  have s: "s = log_score_of c l (content (correct_post c))"
    using fst_calc_log_prob_score [of c l] step by simp
  have sc: "same_counts c c1"
    using same_counts_calc_log_prob_score [of c l] step by simp
  then have cp: "correct_post c1 = correct_post c"
    by (simp add: same_counts_def)
  from Cons.IH [of c1] show ?case
    using same_counts_trans [OF sc]
    by (simp add: step s split_beta same_counts_log_score_of [OF sc] cp)
qed

section \<open>The scan for the maximum\<close>

lemma dgt_irrefl: "\<not> dgt a a"
  by (cases a) simp_all

lemma dgt_not_dgt_trans: "dgt s m \<Longrightarrow> \<not> dgt x m \<Longrightarrow> \<not> dgt x s"
  by (cases s; cases m; cases x) simp_all

lemma dgt_neq: "dgt s m \<Longrightarrow> s \<noteq> m"
  using dgt_irrefl by auto

lemma max_scan_cases:
  "max_scan ps (p, m) = (l, s) \<Longrightarrow>
     ((l, s) = (p, m) \<and> (\<forall>e\<in>set ps. \<not> dgt (snd e) m))
   \<or> (\<exists>xs ys. ps = xs @ (l, s) # ys \<and> dgt s m
         \<and> (\<forall>e\<in>set xs. \<not> dgt (snd e) s \<and> snd e \<noteq> s)
         \<and> (\<forall>e\<in>set ys. \<not> dgt (snd e) s))"
proof (induction ps arbitrary: p m)
  case Nil
  then show ?case by simp
next
  case (Cons e ps)
  obtain l1 s1 where e: "e = (l1, s1)" by (cases e)
  show ?case
  proof (cases "dgt s1 m")
    case True
    with Cons.prems have "max_scan ps (l1, s1) = (l, s)" by (simp add: e)
    from Cons.IH [OF this] show ?thesis
    proof (elim disjE conjE exE)
      assume eq: "(l, s) = (l1, s1)" and all: "\<forall>e\<in>set ps. \<not> dgt (snd e) s1"
      have "e # ps = [] @ (l, s) # ps" using eq e by simp
      moreover have "dgt s m" using True eq by simp
      moreover have "\<forall>e\<in>set ps. \<not> dgt (snd e) s" using all eq by simp
      ultimately show ?thesis by (intro disjI2 exI [of _ "[]"] exI [of _ ps]) simp
    next
      fix xs ys
      assume ps: "ps = xs @ (l, s) # ys" and gt: "dgt s s1"
        and xs: "\<forall>e\<in>set xs. \<not> dgt (snd e) s \<and> snd e \<noteq> s"
        and ys: "\<forall>e\<in>set ys. \<not> dgt (snd e) s"
      have "e # ps = (e # xs) @ (l, s) # ys" using ps by simp
      moreover have "dgt s m"
        using gt True by (cases s; cases s1; cases m) simp_all
      moreover have "\<not> dgt s1 s"
        using gt by (cases s; cases s1) simp_all
      moreover have "s1 \<noteq> s" using gt dgt_irrefl by auto
      ultimately show ?thesis
        using xs ys by (intro disjI2 exI [of _ "e # xs"] exI [of _ ys]) (simp add: e)
    qed
  next
    case False
    with Cons.prems have "max_scan ps (p, m) = (l, s)" by (simp add: e)
    from Cons.IH [OF this] show ?thesis
    proof (elim disjE conjE exE)
      assume "(l, s) = (p, m)" and "\<forall>e\<in>set ps. \<not> dgt (snd e) m"
      then show ?thesis using False by (simp add: e)
    next
      fix xs ys
      assume ps: "ps = xs @ (l, s) # ys" and gt: "dgt s m"
        and xs: "\<forall>e\<in>set xs. \<not> dgt (snd e) s \<and> snd e \<noteq> s"
        and ys: "\<forall>e\<in>set ys. \<not> dgt (snd e) s"
      have "e # ps = (e # xs) @ (l, s) # ys" using ps by simp
      moreover have "\<not> dgt s1 s"
        using dgt_not_dgt_trans [OF gt False] .
      moreover have "s1 \<noteq> s" using gt False by auto
      ultimately show ?thesis
        using xs ys gt by (intro disjI2 exI [of _ "e # xs"] exI [of _ ys]) (simp add: e)
    qed
  qed
qed

lemma max_scan_first_best:
  assumes sorted: "sorted_wrt (<) (l0 # ls)"
    and res: "max_scan (map (\<lambda>l. (l, f l)) (l0 # ls)) (l0, f l0) = (l, s)"
  shows "l \<in> set (l0 # ls) \<and> s = f l
     \<and> (\<forall>l'\<in>set (l0 # ls). \<not> dgt (f l') s \<and> (f l' = s \<longrightarrow> l \<le> l'))"
proof -
  let ?ps = "map (\<lambda>l. (l, f l)) (l0 # ls)"
  from max_scan_cases [OF res] show ?thesis
  proof (elim disjE conjE exE)
    assume eq: "(l, s) = (l0, f l0)" and all: "\<forall>e\<in>set ?ps. \<not> dgt (snd e) (f l0)"
    have "\<forall>l'\<in>set (l0 # ls). l0 \<le> l'" using sorted by auto
    then show ?thesis using eq all by auto
  next
    fix xs ys
    assume ps: "?ps = xs @ (l, s) # ys" and gt: "dgt s (f l0)"
      and xs: "\<forall>e\<in>set xs. \<not> dgt (snd e) s \<and> snd e \<noteq> s"
      and ys: "\<forall>e\<in>set ys. \<not> dgt (snd e) s"
    have keys: "l0 # ls = map fst xs @ l # map fst ys"
    proof -
      have "map fst ?ps = l0 # ls" by (simp add: comp_def)
      moreover have "map fst ?ps = map fst (xs @ (l, s) # ys)" by (simp only: ps)
      ultimately show ?thesis by simp
    qed
    have mem: "(l, s) \<in> set ?ps" using ps by simp
    then have s: "s = f l" and l: "l \<in> set (l0 # ls)" by auto
    have sub: "set xs \<subseteq> set ?ps" "set ys \<subseteq> set ?ps" using ps by auto
    have xs_f: "\<forall>e\<in>set xs. snd e = f (fst e)" using sub by auto
    have ys_f: "\<forall>e\<in>set ys. snd e = f (fst e)" using sub by auto
    have after: "\<forall>l'\<in>set (map fst ys). l < l'"
      using sorted unfolding keys by (simp add: sorted_wrt_append)
    show ?thesis
    proof (intro conjI ballI impI)
      show "l \<in> set (l0 # ls)" by (rule l)
      show "s = f l" by (rule s)
    next
      fix l' assume "l' \<in> set (l0 # ls)"
      then consider "l' \<in> set (map fst xs)" | "l' = l" | "l' \<in> set (map fst ys)"
        unfolding keys by auto
      then show "\<not> dgt (f l') s"
      proof cases
        case 1
        then show ?thesis using xs xs_f by force
      next
        case 2
        then show ?thesis using s dgt_irrefl by simp
      next
        case 3
        then show ?thesis using ys ys_f by force
      qed
    next
      fix l' assume l': "l' \<in> set (l0 # ls)" and eq: "f l' = s"
      from l' consider "l' \<in> set (map fst xs)" | "l' = l" | "l' \<in> set (map fst ys)"
        unfolding keys by auto
      then show "l \<le> l'"
      proof cases
        case 1
        then have False using xs xs_f eq by force
        then show ?thesis ..
      next
        case 2
        then show ?thesis by simp
      next
        case 3
        then show ?thesis using after by auto
      qed
    qed
  qed
qed

lemma predict_label_result:
  "predict_label c =
     (case keys (C_w_count c) of
        [] \<Rightarrow> Undefined_Behaviour
      | l0 # ls \<Rightarrow> Returns (max_scan (map (\<lambda>l. (l, log_score_of c l (content (correct_post c)))) (l0 # ls))
                            (l0, log_score_of c l0 (content (correct_post c)))),
      snd (score_labels (keys (C_w_count c)) c))"
  using score_labels_value [of "keys (C_w_count c)" c]
  by (cases "score_labels (keys (C_w_count c)) c")
     (auto simp: predict_label_def split: list.splits)

section \<open>Sums over a map after an increment\<close>

lemma assign_assign: "assign k v (assign k v' m) = assign k v m"
  by (induction m) auto

lemma increment_eq: "increment m k = assign k (dadd (count_of m k) (Dbl 1)) m"
  by (simp add: increment_def subscript_def count_of_def assign_assign split: option.splits)

lemma increment2_eq:
  "increment2 mm l w =
     assign l (increment (case map_of mm l of None \<Rightarrow> [] | Some inner \<Rightarrow> inner) w) mm"
  by (simp add: increment2_def subscript_def assign_assign split: option.splits)

lemma filter_absent: "map_of m k = None \<Longrightarrow> filter (\<lambda>e. fst e \<noteq> k) m = m"
  by (induction m) (auto split: if_splits)

lemma filter_greater:
  "\<forall>x\<in>set (keys m). k < x \<Longrightarrow> filter (\<lambda>e. fst e \<noteq> k) m = m"
  by (induction m) (auto simp: keys_def)

lemma sum_list_assign:
  fixes f :: "string \<times> 'v \<Rightarrow> double"
  shows "sorted_wrt (<) (keys m) \<Longrightarrow>
    (\<Sum>e\<leftarrow>assign k v m. f e) = f (k, v) + (\<Sum>e\<leftarrow>filter (\<lambda>e. fst e \<noteq> k) m. f e)"
proof (induction m)
  case Nil
  then show ?case by simp
next
  case (Cons e m)
  obtain k' v' where e: "e = (k', v')" by (cases e)
  from Cons.prems have less: "\<forall>x\<in>set (keys m). k' < x" and sorted: "sorted_wrt (<) (keys m)"
    by (simp_all add: e keys_def)
  show ?case
  proof (cases "k < k'")
    case True
    then have "\<forall>x\<in>set (keys m). k < x" using less by auto
    moreover have "k' \<noteq> k" using True by auto
    ultimately show ?thesis using True by (simp add: e filter_greater)
  next
    case False
    show ?thesis
    proof (cases "k = k'")
      case True
      then show ?thesis using less by (simp add: e filter_greater)
    next
      case ne: False
      then show ?thesis
        using False Cons.IH [OF sorted] by (simp add: e add.left_commute)
    qed
  qed
qed

lemma sum_list_lookup:
  fixes f :: "string \<times> 'v \<Rightarrow> double"
  shows "sorted_wrt (<) (keys m) \<Longrightarrow> map_of m k = Some v0 \<Longrightarrow>
    (\<Sum>e\<leftarrow>m. f e) = f (k, v0) + (\<Sum>e\<leftarrow>filter (\<lambda>e. fst e \<noteq> k) m. f e)"
proof (induction m)
  case Nil
  then show ?case by simp
next
  case (Cons e m)
  obtain k' v' where e: "e = (k', v')" by (cases e)
  from Cons.prems have less: "\<forall>x\<in>set (keys m). k' < x" and sorted: "sorted_wrt (<) (keys m)"
    by (simp_all add: e keys_def)
  show ?case
  proof (cases "k = k'")
    case True
    then show ?thesis using less Cons.prems(2) by (simp add: e filter_greater)
  next
    case False
    then have "map_of m k = Some v0" using Cons.prems(2) by (simp add: e)
    from Cons.IH [OF sorted this] show ?thesis
      using False by (simp add: e add.left_commute)
  qed
qed

lemma count_of_increment_plus:
  "count_of (increment m word) w = count_of m w + (if w = word then Dbl 1 else 0)"
  by (simp add: count_of_increment plus_double_def [symmetric])

lemma sum_list_increment:
  assumes "sorted_wrt (<) (keys m)"
  shows "(\<Sum>e\<leftarrow>increment m k. snd e) = (\<Sum>e\<leftarrow>m. snd e) + Dbl 1"
proof -
  let ?rest = "\<Sum>e\<leftarrow>filter (\<lambda>e. fst e \<noteq> k) m. snd e"
  have new: "(\<Sum>e\<leftarrow>increment m k. snd e) = (count_of m k + Dbl 1) + ?rest"
    using sum_list_assign [OF assms, where k = k and v = "dadd (count_of m k) (Dbl 1)" and f = snd]
    by (simp add: increment_eq plus_double_def [symmetric])
  have old: "(\<Sum>e\<leftarrow>m. snd e) = count_of m k + ?rest"
  proof (cases "map_of m k")
    case None
    then show ?thesis
      by (simp add: count_of_def filter_absent zero_double_def [symmetric])
  next
    case (Some v0)
    then show ?thesis
      using sum_list_lookup [OF assms Some, where f = snd] by (simp add: count_of_def)
  qed
  show ?thesis unfolding new old by (simp add: ac_simps)
qed

lemma sum_list_increment2:
  assumes "sorted_wrt (<) (keys mm)"
  shows "(\<Sum>e\<leftarrow>increment2 mm l word. count_of (snd e) w) =
         (\<Sum>e\<leftarrow>mm. count_of (snd e) w) + (if w = word then Dbl 1 else 0)"
proof -
  let ?inner = "case map_of mm l of None \<Rightarrow> [] | Some inner \<Rightarrow> inner"
  let ?rest = "\<Sum>e\<leftarrow>filter (\<lambda>e. fst e \<noteq> l) mm. count_of (snd e) w"
  have new: "(\<Sum>e\<leftarrow>increment2 mm l word. count_of (snd e) w) =
      (count_of ?inner w + (if w = word then Dbl 1 else 0)) + ?rest"
    using sum_list_assign [OF assms, where k = l and v = "increment ?inner word"
        and f = "\<lambda>e. count_of (snd e) w"]
    by (simp only: increment2_eq count_of_increment_plus snd_conv)
  have old: "(\<Sum>e\<leftarrow>mm. count_of (snd e) w) = count_of ?inner w + ?rest"
  proof (cases "map_of mm l")
    case None
    then show ?thesis
      by (simp add: count_of_Nil filter_absent zero_double_def [symmetric])
  next
    case (Some inner)
    then show ?thesis
      using sum_list_lookup [OF assms Some, where f = "\<lambda>e. count_of (snd e) w"] by simp
  qed
  show ?thesis unfolding new old by (simp add: ac_simps)
qed

section \<open>What training maintains\<close>

lemma counts_ok_Nil: "counts_ok []"
  by (simp add: counts_ok_def count_of_Nil keys_def)

lemma counts_ok_increment:
  assumes "counts_ok m"
  shows "counts_ok (increment m k)"
  unfolding counts_ok_def
proof
  fix k'
  from assms obtain n :: nat where n: "count_of m k' = Dbl (real n)"
    and pos: "k' \<in> set (keys m) \<longrightarrow> 0 < n"
    unfolding counts_ok_def by blast
  show "\<exists>n::nat. count_of (increment m k) k' = Dbl (real n)
      \<and> (k' \<in> set (keys (increment m k)) \<longrightarrow> 0 < n)"
  proof (cases "k' = k")
    case True
    then have "count_of (increment m k) k' = Dbl (real (Suc n))"
      using n by (simp add: count_of_increment)
    then show ?thesis by blast
  next
    case False
    then show ?thesis using n pos by (simp add: count_of_increment set_keys_increment)
  qed
qed

lemma set_assign_subset: "set (assign k v m) \<subseteq> insert (k, v) (set m)"
  by (induction m) (auto split: if_splits)

lemma increment_not_Nil: "increment m k \<noteq> []"
  using set_keys_increment [of m k] by (auto simp: keys_def)

lemma train_word_sel:
  "word_count (train_word c w) = increment (word_count c) w"
  "C_w_count (train_word c w) = increment2 (C_w_count c) (tag (post c)) w"
  "label_count (train_word c w) = label_count c"
  "total_posts (train_word c w) = total_posts c"
  "vocab_size (train_word c w) = vocab_size c"
  "post (train_word c w) = post c"
  "correct_post (train_word c w) = correct_post c"
  by (simp_all add: train_word_def Let_def)

lemma words_inv_train_word:
  assumes "words_inv c"
  shows "words_inv (train_word c w)"
proof -
  let ?l = "tag (post c)"
  let ?inner = "case map_of (C_w_count c) ?l of None \<Rightarrow> [] | Some inner \<Rightarrow> inner"
  from assms have s1: "sorted_wrt (<) (keys (word_count c))"
    and s2: "sorted_wrt (<) (keys (C_w_count c))"
    and sum: "\<And>w. (\<Sum>e\<leftarrow>C_w_count c. count_of (snd e) w) = count_of (word_count c) w"
    and sub: "\<And>e. e \<in> set (C_w_count c) \<Longrightarrow> set (keys (snd e)) \<subseteq> set (keys (word_count c))"
    and ok1: "counts_ok (word_count c)"
    and ok2: "\<And>e. e \<in> set (C_w_count c) \<Longrightarrow> counts_ok (snd e) \<and> snd e \<noteq> []"
    unfolding words_inv_def by auto
  have inner_sub: "set (keys ?inner) \<subseteq> set (keys (word_count c))"
  proof (cases "map_of (C_w_count c) ?l")
    case None
    then show ?thesis by (simp add: keys_def)
  next
    case (Some inner)
    then have "(?l, inner) \<in> set (C_w_count c)" by (rule map_of_SomeD)
    from sub [OF this] show ?thesis using Some by simp
  qed
  have inner_ok: "counts_ok ?inner"
  proof (cases "map_of (C_w_count c) ?l")
    case None
    then show ?thesis by (simp add: counts_ok_Nil)
  next
    case (Some inner)
    then have "(?l, inner) \<in> set (C_w_count c)" by (rule map_of_SomeD)
    from ok2 [OF this] show ?thesis using Some by simp
  qed
  have entries: "set (increment2 (C_w_count c) ?l w)
      \<subseteq> insert (?l, increment ?inner w) (set (C_w_count c))"
    unfolding increment2_eq by (rule set_assign_subset)
  show ?thesis
    unfolding words_inv_def train_word_sel
  proof (intro conjI allI ballI)
    show "sorted_wrt (<) (keys (increment (word_count c) w))"
      using s1 by (rule sorted_keys_increment)
    show "sorted_wrt (<) (keys (increment2 (C_w_count c) ?l w))"
      using s2 by (rule sorted_keys_increment2)
    show "counts_ok (increment (word_count c) w)"
      using ok1 by (rule counts_ok_increment)
  next
    fix w'
    show "(\<Sum>e\<leftarrow>increment2 (C_w_count c) ?l w. count_of (snd e) w')
        = count_of (increment (word_count c) w) w'"
      by (simp only: sum_list_increment2 [OF s2] sum count_of_increment_plus)
  next
    fix e assume "e \<in> set (increment2 (C_w_count c) ?l w)"
    then consider "e = (?l, increment ?inner w)" | "e \<in> set (C_w_count c)"
      using entries by auto
    then show "set (keys (snd e)) \<subseteq> set (keys (increment (word_count c) w))"
    proof cases
      case 1
      then show ?thesis using inner_sub by (auto simp: set_keys_increment)
    next
      case 2
      from sub [OF this] show ?thesis by (auto simp: set_keys_increment)
    qed
  next
    fix e assume "e \<in> set (increment2 (C_w_count c) ?l w)"
    then consider "e = (?l, increment ?inner w)" | "e \<in> set (C_w_count c)"
      using entries by auto
    then show "counts_ok (snd e)"
    proof cases
      case 1
      then show ?thesis using counts_ok_increment [OF inner_ok] by simp
    next
      case 2
      from ok2 [OF this] show ?thesis by simp
    qed
  next
    fix e assume "e \<in> set (increment2 (C_w_count c) ?l w)"
    then consider "e = (?l, increment ?inner w)" | "e \<in> set (C_w_count c)"
      using entries by auto
    then show "snd e \<noteq> []"
    proof cases
      case 1
      then show ?thesis by (simp add: increment_not_Nil)
    next
      case 2
      from ok2 [OF this] show ?thesis by simp
    qed
  qed
qed

lemma foldl_train_word_sel:
  "label_count (foldl train_word c ws) = label_count c"
  "total_posts (foldl train_word c ws) = total_posts c"
  "vocab_size (foldl train_word c ws) = vocab_size c"
  "post (foldl train_word c ws) = post c"
  "correct_post (foldl train_word c ws) = correct_post c"
  by (induction ws arbitrary: c) (simp_all add: train_word_sel)

lemma words_inv_foldl_train_word: "words_inv c \<Longrightarrow> words_inv (foldl train_word c ws)"
  by (induction ws arbitrary: c) (simp_all add: words_inv_train_word)

lemma set_keys_C_w_count_foldl_train_word:
  "set (keys (C_w_count (foldl train_word c ws)))
     = set (keys (C_w_count c)) \<union> (if ws = [] then {} else {tag (post c)})"
  by (induction ws arbitrary: c) (auto simp: train_word_sel set_keys_increment2 split: if_splits)

lemma words_inv_cong:
  "word_count c' = word_count c \<Longrightarrow> C_w_count c' = C_w_count c \<Longrightarrow> words_inv c' = words_inv c"
  by (simp add: words_inv_def)

lemma words_inv_train_post: "words_inv c \<Longrightarrow> words_inv (train_post c r)"
proof -
  assume inv: "words_inv c"
  let ?c2 = "c\<lparr>post := r, label_count := increment (label_count c) (tag r)\<rparr>"
  have "words_inv ?c2" using inv by (simp add: words_inv_def)
  then have "words_inv (foldl train_word ?c2 (unique_words (content r)))"
    by (rule words_inv_foldl_train_word)
  then show ?thesis by (simp add: train_post_def Let_def words_inv_def)
qed

lemma labels_inv_train_post:
  assumes "labels_inv c n"
  shows "labels_inv (train_post c r) (Suc n)"
proof -
  let ?c2 = "c\<lparr>post := r, label_count := increment (label_count c) (tag r)\<rparr>"
  let ?c3 = "foldl train_word ?c2 (unique_words (content r))"
  from assms have s: "sorted_wrt (<) (keys (label_count c))"
    and sum: "(\<Sum>e\<leftarrow>label_count c. snd e) = Dbl (real n)"
    and sub: "set (keys (C_w_count c)) \<subseteq> set (keys (label_count c))"
    and ok: "counts_ok (label_count c)"
    unfolding labels_inv_def by auto
  have lc: "label_count (train_post c r) = increment (label_count c) (tag r)"
    by (simp add: train_post_def Let_def foldl_train_word_sel)
  have cw: "C_w_count (train_post c r) = C_w_count ?c3"
    by (simp add: train_post_def Let_def)
  have "set (keys (C_w_count ?c3)) \<subseteq> insert (tag r) (set (keys (C_w_count c)))"
    by (auto simp: set_keys_C_w_count_foldl_train_word split: if_splits)
  then have sub': "set (keys (C_w_count ?c3)) \<subseteq> set (keys (increment (label_count c) (tag r)))"
    using sub by (auto simp: set_keys_increment)
  have "(\<Sum>e\<leftarrow>increment (label_count c) (tag r). snd e) = Dbl (real (Suc n))"
    by (simp add: sum_list_increment [OF s] sum plus_double_def add.commute)
  then show ?thesis
    unfolding labels_inv_def lc cw
    using sorted_keys_increment [OF s] counts_ok_increment [OF ok] sub' by simp
qed

lemma total_posts_train_post: "total_posts (train_post c r) = dadd (total_posts c) (Dbl 1)"
  by (simp add: train_post_def Let_def foldl_train_word_sel)

lemma foldl_train_post_inv:
  assumes "words_inv c" and "labels_inv c n" and "total_posts c = Dbl (real n)"
  shows "words_inv (foldl train_post c rows)
     \<and> labels_inv (foldl train_post c rows) (n + length rows)
     \<and> total_posts (foldl train_post c rows) = Dbl (real (n + length rows))"
  using assms
proof (induction rows arbitrary: c n)
  case Nil
  then show ?case by simp
next
  case (Cons r rows)
  have "total_posts (train_post c r) = Dbl (real (Suc n))"
    using Cons.prems(3) by (simp add: total_posts_train_post add.commute)
  from Cons.IH [OF words_inv_train_post [OF Cons.prems(1)]
      labels_inv_train_post [OF Cons.prems(2)] this]
  show ?case by simp
qed

lemma train_classifier_inv:
  "words_inv (train_classifier (Classifier_new tp vs) rows)
   \<and> labels_inv (train_classifier (Classifier_new tp vs) rows) (length rows)
   \<and> total_posts (train_classifier (Classifier_new tp vs) rows) = Dbl (real (length rows))"
proof -
  let ?c0 = "(Classifier_new tp vs)\<lparr>total_posts := Dbl 0\<rparr>"
  have "words_inv ?c0"
    by (simp add: words_inv_def Classifier_new_def keys_def counts_ok_Nil count_of_Nil
        zero_double_def)
  moreover have "labels_inv ?c0 0"
    by (simp add: labels_inv_def Classifier_new_def keys_def counts_ok_Nil zero_double_def)
  moreover have "total_posts ?c0 = Dbl (real 0)" by simp
  ultimately show ?thesis
    using foldl_train_post_inv [of ?c0 0 rows]
    by (simp add: train_classifier_def Let_def words_inv_def labels_inv_def)
qed

section \<open>The words of a string\<close>

lemma set_set_insert: "set (set_insert w xs) = insert w (set xs)"
  by (induction xs) auto

lemma sorted_set_insert: "sorted_wrt (<) xs \<Longrightarrow> sorted_wrt (<) (set_insert w xs)"
  by (induction xs) (auto simp: set_set_insert)

lemma foldl_set_insert:
  "set (foldl (\<lambda>words word. set_insert word words) acc ws) = set acc \<union> set ws"
  by (induction ws arbitrary: acc) (auto simp: set_set_insert)

lemma sorted_foldl_set_insert:
  "sorted_wrt (<) acc \<Longrightarrow> sorted_wrt (<) (foldl (\<lambda>words word. set_insert word words) acc ws)"
  by (induction ws arbitrary: acc) (auto simp: sorted_set_insert)

lemma set_unique_words: "set (unique_words s) = set (extract_words s)"
  by (simp add: unique_words_def foldl_set_insert)

lemma sorted_unique_words: "sorted_wrt (<) (unique_words s)"
  by (simp add: unique_words_def sorted_foldl_set_insert)

lemma distinct_unique_words: "distinct (unique_words s)"
  using sorted_unique_words [of s] by (simp add: strict_sorted_iff)

lemma unique_words_cong:
  "set (extract_words s) = set (extract_words t) \<Longrightarrow> unique_words s = unique_words t"
  by (rule strict_sorted_equal) (simp_all add: sorted_unique_words set_unique_words)

lemma is_word_of_skip_space:
  assumes "isspace c"
  shows "is_word_of (c # s) w \<longleftrightarrow> is_word_of s w"
proof
  assume "is_word_of (c # s) w"
  then obtain pre suf where w: "w \<noteq> []" "\<not> list_ex isspace w"
    and split: "c # s = pre @ w @ suf"
    and pre: "pre = [] \<or> isspace (last pre)" and suf: "suf = [] \<or> isspace (hd suf)"
    unfolding is_word_of_def by blast
  have "pre \<noteq> []"
  proof
    assume "pre = []"
    then have "hd w = c" using split w(1) by (cases w) auto
    then have "c \<in> set w" using w(1) by (cases w) auto
    then show False using w(2) assms by (auto simp: list_ex_iff)
  qed
  then obtain pre' where pre': "pre = c # pre'" using split by (cases pre) auto
  then have "s = pre' @ w @ suf" using split by simp
  moreover have "pre' = [] \<or> isspace (last pre')" using pre pre' by (auto split: if_splits)
  ultimately show "is_word_of s w" using w suf unfolding is_word_of_def by blast
next
  assume "is_word_of s w"
  then obtain pre suf where w: "w \<noteq> []" "\<not> list_ex isspace w"
    and split: "s = pre @ w @ suf"
    and pre: "pre = [] \<or> isspace (last pre)" and suf: "suf = [] \<or> isspace (hd suf)"
    unfolding is_word_of_def by blast
  have "c # s = (c # pre) @ w @ suf" using split by simp
  moreover have "isspace (last (c # pre))" using pre assms by auto
  ultimately show "is_word_of (c # s) w" using w suf unfolding is_word_of_def by blast
qed

lemma is_word_of_dropWhile: "is_word_of (dropWhile isspace s) w \<longleftrightarrow> is_word_of s w"
  by (induction s) (simp_all add: is_word_of_skip_space)

lemma is_word_of_Nil: "\<not> is_word_of [] w"
  by (auto simp: is_word_of_def)

lemma takeWhile_word:
  assumes "\<not> list_ex isspace w" and "suf = [] \<or> isspace (hd suf)"
  shows "takeWhile (\<lambda>c. \<not> isspace c) (w @ suf) = w"
proof -
  have "takeWhile (\<lambda>c. \<not> isspace c) suf = []"
    using assms(2) by (cases suf) auto
  moreover have "\<forall>c\<in>set w. \<not> isspace c" using assms(1) by (simp add: list_ex_iff)
  ultimately show ?thesis by simp
qed

lemma is_word_of_first:
  assumes w0: "w0 \<noteq> []" "\<not> list_ex isspace w0" and rest: "rest = [] \<or> isspace (hd rest)"
  shows "is_word_of (w0 @ rest) w \<longleftrightarrow> w = w0 \<or> is_word_of rest w"
proof
  assume "is_word_of (w0 @ rest) w"
  then obtain pre suf where w: "w \<noteq> []" "\<not> list_ex isspace w"
    and split: "w0 @ rest = pre @ w @ suf"
    and pre: "pre = [] \<or> isspace (last pre)" and suf: "suf = [] \<or> isspace (hd suf)"
    unfolding is_word_of_def by blast
  show "w = w0 \<or> is_word_of rest w"
  proof (cases "pre = []")
    case True
    then have "takeWhile (\<lambda>c. \<not> isspace c) (w0 @ rest) = takeWhile (\<lambda>c. \<not> isspace c) (w @ suf)"
      using split by simp
    then have "w0 = w"
      by (simp only: takeWhile_word [OF w0(2) rest] takeWhile_word [OF w(2) suf])
    then show ?thesis by simp
  next
    case False
    then have sp: "isspace (last pre)" using pre by simp
    from split obtain us where
      "(w0 = pre @ us \<and> us @ rest = w @ suf) \<or> (w0 @ us = pre \<and> rest = us @ w @ suf)"
      by (auto simp: append_eq_append_conv2)
    then show ?thesis
    proof
      assume "w0 = pre @ us \<and> us @ rest = w @ suf"
      then have "last pre \<in> set w0" using False by auto
      then have False using sp w0(2) by (auto simp: list_ex_iff)
      then show ?thesis ..
    next
      assume us: "w0 @ us = pre \<and> rest = us @ w @ suf"
      have "us \<noteq> []"
      proof
        assume "us = []"
        then have "last pre \<in> set w0" using us w0(1) by auto
        then show False using sp w0(2) by (auto simp: list_ex_iff)
      qed
      then have "isspace (last us)" using us sp by auto
      then have "is_word_of rest w"
        using us w suf unfolding is_word_of_def by blast
      then show ?thesis ..
    qed
  qed
next
  assume "w = w0 \<or> is_word_of rest w"
  then show "is_word_of (w0 @ rest) w"
  proof
    assume "w = w0"
    then have "w0 @ rest = [] @ w @ rest" by simp
    then show ?thesis using w0 rest \<open>w = w0\<close> unfolding is_word_of_def by blast
  next
    assume "is_word_of rest w"
    then obtain pre suf where w: "w \<noteq> []" "\<not> list_ex isspace w"
      and split: "rest = pre @ w @ suf"
      and pre: "pre = [] \<or> isspace (last pre)" and suf: "suf = [] \<or> isspace (hd suf)"
      unfolding is_word_of_def by blast
    have "pre \<noteq> []"
    proof
      assume "pre = []"
      then have "hd rest = hd w" "rest \<noteq> []" using split w(1) by auto
      then have "isspace (hd w)" using rest by simp
      moreover have "hd w \<in> set w" using w(1) by simp
      ultimately show False using w(2) by (auto simp: list_ex_iff)
    qed
    then have "isspace (last (w0 @ pre))" using pre by simp
    moreover have "w0 @ rest = (w0 @ pre) @ w @ suf" using split by simp
    ultimately show ?thesis using w suf unfolding is_word_of_def by blast
  qed
qed

lemma set_extract_words: "set (extract_words s) = {w. is_word_of s w}"
proof (induction s rule: extract_words.induct)
  case (1 s)
  let ?s1 = "dropWhile isspace s"
  let ?w0 = "takeWhile (\<lambda>c. \<not> isspace c) ?s1"
  let ?rest = "dropWhile (\<lambda>c. \<not> isspace c) ?s1"
  show ?case
  proof (cases "?s1 = []")
    case True
    then have "extract_words s = []" by (simp add: extract_words.simps [of s])
    moreover have "\<not> is_word_of s w" for w
      using is_word_of_dropWhile [of s w] True by (simp add: is_word_of_Nil)
    ultimately show ?thesis by simp
  next
    case False
    then have "\<not> isspace (hd ?s1)" by (rule hd_dropWhile)
    then have w0: "?w0 \<noteq> []" using False by (cases ?s1) auto
    have w0': "\<not> list_ex isspace ?w0"
      by (auto simp: list_ex_iff dest: set_takeWhileD)
    have rest: "?rest = [] \<or> isspace (hd ?rest)"
      using hd_dropWhile [of "\<lambda>c. \<not> isspace c" ?s1] by auto
    have ex: "extract_words s = ?w0 # extract_words ?rest"
      using False by (simp add: extract_words.simps [of s])
    have "is_word_of s w \<longleftrightarrow> w = ?w0 \<or> is_word_of ?rest w" for w
    proof -
      have "is_word_of s w \<longleftrightarrow> is_word_of (?w0 @ ?rest) w"
        by (simp add: is_word_of_dropWhile)
      then show ?thesis by (simp only: is_word_of_first [OF w0 w0' rest])
    qed
    then show ?thesis using "1.IH" [OF False] by (auto simp: ex)
  qed
qed

lemma extract_words_all_space: "list_all isspace s \<Longrightarrow> extract_words s = []"
  by (simp add: extract_words.simps [of s] list_all_iff)

section \<open>The end-to-end scenario, evaluated\<close>

lemma unique_words_x_y: "unique_words ''x y'' = [''x'', ''y'']"
  by code_simp

lemma unique_words_y_z: "unique_words ''y z'' = [''y'', ''z'']"
  by code_simp

lemma unique_words_y: "unique_words ''y'' = [''y'']"
  by code_simp

lemma train_classifier_ex_rows:
  "train_classifier (Classifier_new (Dbl 0) (Dbl 0)) ex_rows =
     \<lparr>total_posts = Dbl 2, vocab_size = Dbl 3,
      word_count = [(''x'', Dbl 1), (''y'', Dbl 2), (''z'', Dbl 1)],
      label_count = [(''cs'', Dbl 1), (''math'', Dbl 1)],
      C_w_count = [(''cs'', [(''y'', Dbl 1), (''z'', Dbl 1)]), (''math'', [(''x'', Dbl 1), (''y'', Dbl 1)])],
      post = \<lparr>tag = ''cs'', content = ''y z''\<rparr>,
      correct_post = \<lparr>tag = [], content = []\<rparr>\<rparr>"
  by (simp add: train_classifier_def train_post_def train_word_def ex_rows_def Classifier_new_def
      unique_words_x_y unique_words_y_z increment_def increment2_def subscript_def Let_def)

lemma ex_model:
  "ex_trained_model =
     \<lparr>total_posts = Dbl 2, vocab_size = Dbl 3,
      word_count = [(''x'', Dbl 1), (''y'', Dbl 2), (''z'', Dbl 1)],
      label_count = [(''cs'', Dbl 1), (''math'', Dbl 1)],
      C_w_count = [(''cs'', [(''y'', Dbl 1), (''z'', Dbl 1)]), (''math'', [(''x'', Dbl 1), (''y'', Dbl 1)])],
      post = \<lparr>tag = ''cs'', content = ''y z''\<rparr>,
      correct_post = \<lparr>tag = [], content = []\<rparr>\<rparr>"
  unfolding ex_trained_model_def by (rule train_classifier_ex_rows)

lemma unique_words_q_x: "unique_words ''q x'' = [''q'', ''x'']"
  by code_simp

lemma unique_words_empty: "unique_words '''' = []"
  by code_simp

section \<open>Further facts about trained models\<close>

lemma counts_ok_nonzero_iff:
  "counts_ok m \<Longrightarrow> dgt (count_of m k) (Dbl 0) \<longleftrightarrow> count_of m k \<noteq> Dbl 0"
proof -
  assume "counts_ok m"
  then obtain n :: nat where "count_of m k = Dbl (real n)"
    unfolding counts_ok_def by blast
  then show ?thesis by simp
qed

lemma map_of_entry:
  "sorted_wrt (<) (keys m) \<Longrightarrow> e \<in> set m \<Longrightarrow> map_of m (fst e) = Some (snd e)"
  by (cases e) (simp add: keys_def strict_sorted_iff)

lemma map_count_of_keys:
  assumes "sorted_wrt (<) (keys m)"
  shows "map (count_of m) (keys m) = map snd m"
  using map_of_entry [OF assms] by (simp add: keys_def count_of_def)

lemma map_joint_of_keys:
  assumes "sorted_wrt (<) (keys mm)"
  shows "map (\<lambda>C. joint_of mm C w) (keys mm) = map (\<lambda>e. count_of (snd e) w) mm"
  using map_of_entry [OF assms] by (simp add: keys_def joint_of_def)

section \<open>Training depends on the set of words of a post\<close>

lemma model_of_train_word:
  "model_of c = model_of c' \<Longrightarrow> tag (post c) = tag (post c') \<Longrightarrow>
   model_of (train_word c w) = model_of (train_word c' w)
   \<and> tag (post (train_word c w)) = tag (post (train_word c' w))"
  by (simp add: model_of_def train_word_sel)

lemma model_of_foldl_train_word:
  "model_of c = model_of c' \<Longrightarrow> tag (post c) = tag (post c') \<Longrightarrow>
   model_of (foldl train_word c ws) = model_of (foldl train_word c' ws)"
proof (induction ws arbitrary: c c')
  case Nil
  then show ?case by simp
next
  case (Cons w ws)
  from model_of_train_word [OF Cons.prems, of w]
  have "model_of (foldl train_word (train_word c w) ws)
      = model_of (foldl train_word (train_word c' w) ws)"
    by (intro Cons.IH) simp_all
  then show ?case by simp
qed

lemma model_of_train_post:
  assumes "model_of c = model_of c'" and "tag r = tag r'"
    and "unique_words (content r) = unique_words (content r')"
  shows "model_of (train_post c r) = model_of (train_post c' r')"
proof -
  let ?c2 = "c\<lparr>post := r, label_count := increment (label_count c) (tag r)\<rparr>"
  let ?c2' = "c'\<lparr>post := r', label_count := increment (label_count c') (tag r')\<rparr>"
  have "model_of ?c2 = model_of ?c2'" and "tag (post ?c2) = tag (post ?c2')"
    using assms(1,2) by (simp_all add: model_of_def)
  then have "model_of (foldl train_word ?c2 (unique_words (content r)))
      = model_of (foldl train_word ?c2' (unique_words (content r')))"
    unfolding assms(3) by (rule model_of_foldl_train_word)
  then show ?thesis
    by (simp add: train_post_def Let_def model_of_def)
qed

lemma model_of_foldl_train_post:
  "model_of c = model_of c' \<Longrightarrow>
   model_of (foldl train_post c rows) = model_of (foldl train_post c' rows)"
proof (induction rows arbitrary: c c')
  case Nil
  then show ?case by simp
next
  case (Cons r rows)
  have "model_of (train_post c r) = model_of (train_post c' r)"
    using Cons.prems by (rule model_of_train_post) simp_all
  then have "model_of (foldl train_post (train_post c r) rows)
      = model_of (foldl train_post (train_post c' r) rows)"
    by (rule Cons.IH)
  then show ?case by simp
qed

lemma model_of_train_classifier:
  "model_of (foldl train_post (c\<lparr>total_posts := Dbl 0\<rparr>) rows)
     = model_of (foldl train_post (c\<lparr>total_posts := Dbl 0\<rparr>) rows') \<Longrightarrow>
   model_of (train_classifier c rows) = model_of (train_classifier c rows')"
  by (simp add: train_classifier_def Let_def model_of_def)

lemma set_concat_doubled: "set (concat (map (\<lambda>w. [w, w]) ws)) = set ws"
  by (induction ws) auto

lemma extract_words_doubled: "extract_words ''x  x y y'' = concat (map (\<lambda>w. [w, w]) (extract_words ''x y''))"
  by code_simp

lemma unique_words_mixed_space: "unique_words [CHR '' '', CHR 0x09, CHR ''b'', CHR 0x0A, CHR ''a'', CHR ''c'', CHR 0x0D, CHR ''b''] = [''ac'', ''b'']"
  by code_simp

section \<open>Scoring a label keeps the keys of the label loop\<close>

lemma C_w_count_calc_log_prior: "C_w_count (snd (calc_log_prior c l)) = C_w_count c"
  by (simp add: calc_log_prior_def split_beta)

lemma keys_C_w_count_calc_log_likelihood:
  "sorted_wrt (<) (keys (C_w_count c)) \<Longrightarrow> l \<in> set (keys (C_w_count c)) \<Longrightarrow>
   keys (C_w_count (snd (calc_log_likelihood c l w))) = keys (C_w_count c)"
  by (simp add: calc_log_likelihood_def split_beta Let_def keys_snd_subscript2_present)

lemma keys_C_w_count_sum_likelihoods:
  "sorted_wrt (<) (keys (C_w_count c)) \<Longrightarrow> l \<in> set (keys (C_w_count c)) \<Longrightarrow>
   keys (C_w_count (snd (sum_likelihoods l ws (s, c)))) = keys (C_w_count c)"
proof (induction ws arbitrary: s c)
  case Nil
  then show ?case by simp
next
  case (Cons w ws)
  obtain ll c1 where step: "calc_log_likelihood c l w = (ll, c1)"
    by (cases "calc_log_likelihood c l w")
  then have k: "keys (C_w_count c1) = keys (C_w_count c)"
    using keys_C_w_count_calc_log_likelihood [OF Cons.prems, of w] by simp
  then have "keys (C_w_count (snd (sum_likelihoods l ws (dadd s ll, c1)))) = keys (C_w_count c1)"
    using Cons.prems by (intro Cons.IH) simp_all
  then show ?case by (simp add: step k)
qed

lemma keys_C_w_count_calc_log_prob_score:
  "sorted_wrt (<) (keys (C_w_count c)) \<Longrightarrow> l \<in> set (keys (C_w_count c)) \<Longrightarrow>
   keys (C_w_count (snd (calc_log_prob_score c l))) = keys (C_w_count c)"
proof -
  assume a: "sorted_wrt (<) (keys (C_w_count c))" "l \<in> set (keys (C_w_count c))"
  obtain lp c1 where step: "calc_log_prior c l = (lp, c1)"
    by (cases "calc_log_prior c l")
  then have "C_w_count c1 = C_w_count c"
    using C_w_count_calc_log_prior [of c l] by simp
  then show ?thesis
    using keys_C_w_count_sum_likelihoods [of c1 l] a by (simp add: calc_log_prob_score_def step)
qed

section \<open>The functions with the rounding left open\<close>

lemma exact_fpu_sel:
  "fp_log exact_fpu = dlog" "fp_div exact_fpu = ddiv" "fp_add exact_fpu = dadd"
  by (simp_all add: exact_fpu_def)

lemma calc_log_prior_exact: "calc_log_prior_fp exact_fpu = calc_log_prior"
  by (intro ext) (simp add: calc_log_prior_fp_def calc_log_prior_def exact_fpu_sel)

lemma calc_log_likelihood_exact: "calc_log_likelihood_fp exact_fpu = calc_log_likelihood"
  unfolding fun_eq_iff calc_log_likelihood_fp_def calc_log_likelihood_def exact_fpu_sel
  by simp

lemma sum_likelihoods_exact: "sum_likelihoods_fp exact_fpu l ws (s, c) = sum_likelihoods l ws (s, c)"
  by (induction ws arbitrary: s c)
     (simp_all add: calc_log_likelihood_exact split_beta exact_fpu_sel)

lemma calc_log_prob_score_exact: "calc_log_prob_score_fp exact_fpu = calc_log_prob_score"
  by (intro ext)
     (simp add: calc_log_prob_score_fp_def calc_log_prob_score_def calc_log_prior_exact
       sum_likelihoods_exact split_beta)

lemma score_labels_exact: "score_labels_fp exact_fpu ls c = score_labels ls c"
  by (induction ls arbitrary: c) (simp_all add: calc_log_prob_score_exact)

lemma predict_label_exact: "predict_label_fp exact_fpu = predict_label"
  by (intro ext) (simp add: predict_label_fp_def predict_label_def score_labels_exact)

lemma fst_calc_log_prior_fp:
  "fst (calc_log_prior_fp fp c l) = fp_log fp (fp_div fp (count_of (label_count c) l) (total_posts c))"
  by (simp add: calc_log_prior_fp_def split_beta fst_subscript_count_of)

lemma same_counts_calc_log_prior_fp: "same_counts c (snd (calc_log_prior_fp fp c l))"
  by (simp add: calc_log_prior_fp_def same_counts_def split_beta count_of_snd_subscript_fun)

lemma fst_calc_log_likelihood_fp:
  "fst (calc_log_likelihood_fp fp c l w) = log_likelihood_of_fp fp c l w"
  by (simp add: calc_log_likelihood_fp_def log_likelihood_of_fp_def split_beta Let_def
      fst_subscript_count_of fst_subscript2 count_of_snd_subscript joint_of_snd_subscript2)

lemma same_counts_calc_log_likelihood_fp: "same_counts c (snd (calc_log_likelihood_fp fp c l w))"
  by (simp add: calc_log_likelihood_fp_def same_counts_def split_beta Let_def
      count_of_snd_subscript_fun joint_of_snd_subscript2_fun)

lemma same_counts_log_likelihood_of_fp:
  "same_counts c c' \<Longrightarrow> log_likelihood_of_fp fp c' = log_likelihood_of_fp fp c"
  by (auto simp: same_counts_def log_likelihood_of_fp_def fun_eq_iff)

lemma same_counts_log_score_of_fp:
  "same_counts c c' \<Longrightarrow> log_score_of_fp fp c' = log_score_of_fp fp c"
  by (simp add: log_score_of_fp_def fun_eq_iff same_counts_log_likelihood_of_fp)
     (simp add: same_counts_def)

lemma sum_likelihoods_fp_value:
  "fst (sum_likelihoods_fp fp l ws (s, c))
     = foldl (\<lambda>score w. fp_add fp score (log_likelihood_of_fp fp c l w)) s ws
   \<and> same_counts c (snd (sum_likelihoods_fp fp l ws (s, c)))"
proof (induction ws arbitrary: s c)
  case Nil
  show ?case by (simp add: same_counts_refl)
next
  case (Cons w ws)
  obtain ll c1 where step: "calc_log_likelihood_fp fp c l w = (ll, c1)"
    by (cases "calc_log_likelihood_fp fp c l w")
  have ll: "ll = log_likelihood_of_fp fp c l w"
    using fst_calc_log_likelihood_fp [of fp c l w] step by simp
  have sc: "same_counts c c1"
    using same_counts_calc_log_likelihood_fp [of c fp l w] step by simp
  from Cons.IH [of "fp_add fp s ll" c1] show ?case
    using same_counts_trans [OF sc]
    by (simp add: step ll same_counts_log_likelihood_of_fp [OF sc])
qed

lemma fst_calc_log_prob_score_fp:
  "fst (calc_log_prob_score_fp fp c l) = log_score_of_fp fp c l (content (correct_post c))"
proof -
  obtain lp c1 where step: "calc_log_prior_fp fp c l = (lp, c1)"
    by (cases "calc_log_prior_fp fp c l")
  have lp: "lp = fp_log fp (fp_div fp (count_of (label_count c) l) (total_posts c))"
    using fst_calc_log_prior_fp [of fp c l] step by simp
  have sc: "same_counts c c1"
    using same_counts_calc_log_prior_fp [of c fp l] step by simp
  show ?thesis
    by (simp add: calc_log_prob_score_fp_def step sum_likelihoods_fp_value log_score_of_fp_def lp
        same_counts_log_likelihood_of_fp [OF sc])
qed

lemma same_counts_calc_log_prob_score_fp: "same_counts c (snd (calc_log_prob_score_fp fp c l))"
proof -
  obtain lp c1 where step: "calc_log_prior_fp fp c l = (lp, c1)"
    by (cases "calc_log_prior_fp fp c l")
  have sc: "same_counts c c1"
    using same_counts_calc_log_prior_fp [of c fp l] step by simp
  show ?thesis
    using same_counts_trans [OF sc] sum_likelihoods_fp_value
    by (simp add: calc_log_prob_score_fp_def step)
qed

lemma score_labels_fp_value:
  "fst (score_labels_fp fp ls c)
     = map (\<lambda>l. (l, log_score_of_fp fp c l (content (correct_post c)))) ls
   \<and> same_counts c (snd (score_labels_fp fp ls c))"
proof (induction ls arbitrary: c)
  case Nil
  show ?case by (simp add: same_counts_refl)
next
  case (Cons l ls)
  obtain s c1 where step: "calc_log_prob_score_fp fp c l = (s, c1)"
    by (cases "calc_log_prob_score_fp fp c l")
  have s: "s = log_score_of_fp fp c l (content (correct_post c))"
    using fst_calc_log_prob_score_fp [of fp c l] step by simp
  have sc: "same_counts c c1"
    using same_counts_calc_log_prob_score_fp [of c fp l] step by simp
  then have cp: "correct_post c1 = correct_post c"
    by (simp add: same_counts_def)
  from Cons.IH [of c1] show ?case
    using same_counts_trans [OF sc]
    by (simp add: step s split_beta same_counts_log_score_of_fp [OF sc] cp)
qed

lemma predict_label_fp_result:
  "predict_label_fp fp c =
     (case keys (C_w_count c) of
        [] \<Rightarrow> Undefined_Behaviour
      | l0 # ls \<Rightarrow>
          Returns (max_scan (map (\<lambda>l. (l, log_score_of_fp fp c l (content (correct_post c)))) (l0 # ls))
                     (l0, log_score_of_fp fp c l0 (content (correct_post c)))),
      snd (score_labels_fp fp (keys (C_w_count c)) c))"
  using score_labels_fp_value [of fp "keys (C_w_count c)" c]
  by (cases "score_labels_fp fp (keys (C_w_count c)) c")
     (auto simp: predict_label_fp_def split: list.splits)

section \<open>The labels of a trained model\<close>

lemma label_count_train_post:
  "label_count (train_post c r) = increment (label_count c) (tag r)"
  by (simp add: train_post_def Let_def foldl_train_word_sel)

lemma set_keys_label_count_foldl_train_post:
  "set (keys (label_count (foldl train_post c rows)))
     = set (keys (label_count c)) \<union> tag ` set rows"
  by (induction rows arbitrary: c) (auto simp: label_count_train_post set_keys_increment)

lemma set_keys_C_w_count_train_post:
  "set (keys (C_w_count (train_post c r)))
     = set (keys (C_w_count c)) \<union> (if unique_words (content r) = [] then {} else {tag r})"
  by (simp add: train_post_def Let_def set_keys_C_w_count_foldl_train_word)

lemma set_keys_C_w_count_foldl_train_post:
  "set (keys (C_w_count (foldl train_post c rows)))
     = set (keys (C_w_count c)) \<union> tag ` {r \<in> set rows. unique_words (content r) \<noteq> []}"
  by (induction rows arbitrary: c) (auto simp: set_keys_C_w_count_train_post split: if_splits)

lemma set_keys_label_count_trained:
  "set (keys (label_count (train_classifier (Classifier_new tp vs) rows))) = tag ` set rows"
  by (simp add: train_classifier_def Let_def set_keys_label_count_foldl_train_post)
     (simp add: Classifier_new_def keys_def)

lemma set_keys_C_w_count_trained:
  "set (keys (C_w_count (train_classifier (Classifier_new tp vs) rows)))
     = tag ` {r \<in> set rows. unique_words (content r) \<noteq> []}"
  by (simp add: train_classifier_def Let_def set_keys_C_w_count_foldl_train_post)
     (simp add: Classifier_new_def keys_def)

lemma keys_C_w_count_calc_log_likelihood_fp:
  "sorted_wrt (<) (keys (C_w_count c)) \<Longrightarrow> l \<in> set (keys (C_w_count c)) \<Longrightarrow>
   keys (C_w_count (snd (calc_log_likelihood_fp fp c l w))) = keys (C_w_count c)"
  by (simp add: calc_log_likelihood_fp_def split_beta Let_def keys_snd_subscript2_present)

lemma keys_C_w_count_sum_likelihoods_fp:
  "sorted_wrt (<) (keys (C_w_count c)) \<Longrightarrow> l \<in> set (keys (C_w_count c)) \<Longrightarrow>
   keys (C_w_count (snd (sum_likelihoods_fp fp l ws (s, c)))) = keys (C_w_count c)"
proof (induction ws arbitrary: s c)
  case Nil
  then show ?case by simp
next
  case (Cons w ws)
  obtain ll c1 where step: "calc_log_likelihood_fp fp c l w = (ll, c1)"
    by (cases "calc_log_likelihood_fp fp c l w")
  then have k: "keys (C_w_count c1) = keys (C_w_count c)"
    using keys_C_w_count_calc_log_likelihood_fp [OF Cons.prems, of fp w] by simp
  then have "keys (C_w_count (snd (sum_likelihoods_fp fp l ws (fp_add fp s ll, c1))))
      = keys (C_w_count c1)"
    using Cons.prems by (intro Cons.IH) simp_all
  then show ?case by (simp add: step k)
qed

lemma keys_C_w_count_calc_log_prob_score_fp:
  "sorted_wrt (<) (keys (C_w_count c)) \<Longrightarrow> l \<in> set (keys (C_w_count c)) \<Longrightarrow>
   keys (C_w_count (snd (calc_log_prob_score_fp fp c l))) = keys (C_w_count c)"
proof -
  assume a: "sorted_wrt (<) (keys (C_w_count c))" "l \<in> set (keys (C_w_count c))"
  obtain lp c1 where step: "calc_log_prior_fp fp c l = (lp, c1)"
    by (cases "calc_log_prior_fp fp c l")
  then have "C_w_count c1 = C_w_count c"
    by (auto simp: calc_log_prior_fp_def split_beta)
  then show ?thesis
    using keys_C_w_count_sum_likelihoods_fp [of c1 l] a
    by (simp add: calc_log_prob_score_fp_def step)
qed

section \<open>A near tie\<close>

text \<open>
  Trained on (a, "x"), (a, ""), (a, ""), (b, "x") and asked about "x", the scores of the
  two labels are \<open>log (3/4) + log (1/3)\<close> and \<open>log (1/4) + log (1/1)\<close>: equal as real
  numbers, and left to the rounding as doubles. \<^verbatim>\<open>predict_label\<close> returns \<open>b\<close> exactly when
  the computed score of \<open>b\<close> is greater than the computed score of \<open>a\<close>.
\<close>

lemma unique_words_x: "unique_words ''x'' = [''x'']"
  by code_simp

lemma predict_label_fp_near_tie:
  "fst (predict_label_fp fp
     ((train_classifier (Classifier_new (Dbl 0) (Dbl 0))
        [\<lparr>tag = ''a'', content = ''x''\<rparr>, \<lparr>tag = ''a'', content = ''''\<rparr>,
         \<lparr>tag = ''a'', content = ''''\<rparr>, \<lparr>tag = ''b'', content = ''x''\<rparr>])
      \<lparr>correct_post := \<lparr>tag = ''a'', content = ''x''\<rparr>\<rparr>))
   = Returns
      (if dgt (fp_add fp (fp_log fp (fp_div fp (Dbl 1) (Dbl 4))) (fp_log fp (fp_div fp (Dbl 1) (Dbl 1))))
              (fp_add fp (fp_log fp (fp_div fp (Dbl 3) (Dbl 4))) (fp_log fp (fp_div fp (Dbl 1) (Dbl 3))))
       then (''b'', fp_add fp (fp_log fp (fp_div fp (Dbl 1) (Dbl 4))) (fp_log fp (fp_div fp (Dbl 1) (Dbl 1))))
       else (''a'', fp_add fp (fp_log fp (fp_div fp (Dbl 3) (Dbl 4))) (fp_log fp (fp_div fp (Dbl 1) (Dbl 3)))))"
proof -
  have t: "train_classifier (Classifier_new (Dbl 0) (Dbl 0))
        [\<lparr>tag = ''a'', content = ''x''\<rparr>, \<lparr>tag = ''a'', content = ''''\<rparr>,
         \<lparr>tag = ''a'', content = ''''\<rparr>, \<lparr>tag = ''b'', content = ''x''\<rparr>]
     = \<lparr>total_posts = Dbl 4, vocab_size = Dbl 1,
        word_count = [(''x'', Dbl 2)],
        label_count = [(''a'', Dbl 3), (''b'', Dbl 1)],
        C_w_count = [(''a'', [(''x'', Dbl 1)]), (''b'', [(''x'', Dbl 1)])],
        post = \<lparr>tag = ''b'', content = ''x''\<rparr>,
        correct_post = \<lparr>tag = [], content = []\<rparr>\<rparr>"
    by (simp add: train_classifier_def train_post_def train_word_def Classifier_new_def
        unique_words_x unique_words_empty increment_def increment2_def subscript_def Let_def)
  show ?thesis
    by (simp add: t predict_label_fp_result keys_def log_score_of_fp_def log_likelihood_of_fp_def
        unique_words_x count_of_def joint_of_def dgt_irrefl)
qed

section \<open>The claims\<close>

text \<open>
  Claim C1, the tie of the end-to-end scenario. The model is trained on the rows
  (math, "x y") and (cs, "y z") and asked about the content "y". Both labels get the score
  \<open>ln (1/2) + ln (1/1)\<close>, and \<^verbatim>\<open>predict_label\<close> returns \<open>cs\<close>: the first key of the
  \<^verbatim>\<open>std::map\<close>, not \<open>math\<close>, the label that came first in the training file.
\<close>

theorem predict_label_tie_counterexample:
  "fst (calc_log_prob_score (ex_trained_model\<lparr>correct_post := \<lparr>tag = ''math'', content = ''y''\<rparr>\<rparr>) ''math'')
     = Dbl (ln (1 / 2) + ln (1 / 1))
   \<and> fst (calc_log_prob_score (ex_trained_model\<lparr>correct_post := \<lparr>tag = ''math'', content = ''y''\<rparr>\<rparr>) ''cs'')
     = Dbl (ln (1 / 2) + ln (1 / 1))
   \<and> fst (predict_label (ex_trained_model\<lparr>correct_post := \<lparr>tag = ''math'', content = ''y''\<rparr>\<rparr>))
     = Returns (''cs'', Dbl (ln (1 / 2) + ln (1 / 1)))"
  by (simp add: predict_label_result fst_calc_log_prob_score ex_model keys_def log_score_of_def
      log_prior_of_def log_likelihood_of_def unique_words_y count_of_def joint_of_def
      plus_double_def zero_double_def)

text \<open>
  Claim C1 as the code has it, for every rounding of the floating-point operations. Take
  training rows in which every label has some post with a word, and any test row.
  \<^verbatim>\<open>predict_label\<close> returns a label \<open>l\<close> observed in training together with its score
  \<open>s\<close>, as the program computes it. No label observed in training has a computed score
  greater than \<open>s\<close>, and every label observed in training whose computed score equals
  \<open>s\<close> is \<open>l\<close> or comes after \<open>l\<close> in the order of the keys: a tie goes to the least label
  in the bytewise order of \<^verbatim>\<open>std::string\<close>.
\<close>

theorem predict_label_least_key_among_best:
  assumes "rows \<noteq> []"
    and "\<forall>r\<in>set rows. \<exists>r'\<in>set rows. tag r' = tag r \<and> unique_words (content r') \<noteq> []"
  shows "\<exists>l s c'.
     predict_label_fp fp ((train_classifier (Classifier_new tp vs) rows)\<lparr>correct_post := q\<rparr>)
       = (Returns (l, s), c')
     \<and> l \<in> tag ` set rows
     \<and> s = fst (calc_log_prob_score_fp fp
                 ((train_classifier (Classifier_new tp vs) rows)\<lparr>correct_post := q\<rparr>) l)
     \<and> (\<forall>l'\<in>tag ` set rows.
           \<not> dgt (fst (calc_log_prob_score_fp fp
                 ((train_classifier (Classifier_new tp vs) rows)\<lparr>correct_post := q\<rparr>) l')) s
           \<and> (fst (calc_log_prob_score_fp fp
                 ((train_classifier (Classifier_new tp vs) rows)\<lparr>correct_post := q\<rparr>) l') = s
                \<longrightarrow> l \<le> l'))"
proof -
  let ?t = "train_classifier (Classifier_new tp vs) rows"
  let ?c = "?t\<lparr>correct_post := q\<rparr>"
  let ?f = "\<lambda>l. log_score_of_fp fp ?c l (content (correct_post ?c))"
  have "tag ` {r \<in> set rows. unique_words (content r) \<noteq> []} = tag ` set rows"
    using assms(2) by (auto simp: image_iff) metis
  then have labels: "set (keys (C_w_count ?t)) = tag ` set rows"
    by (simp add: set_keys_C_w_count_trained)
  then have "keys (C_w_count ?t) \<noteq> []" using assms(1) by auto
  then obtain l0 ls where ks: "keys (C_w_count ?t) = l0 # ls"
    by (cases "keys (C_w_count ?t)") auto
  have sorted: "sorted_wrt (<) (l0 # ls)"
    using train_classifier_inv [of tp vs rows] ks by (simp add: words_inv_def)
  obtain l s where res: "max_scan (map (\<lambda>l. (l, ?f l)) (l0 # ls)) (l0, ?f l0) = (l, s)"
    by (cases "max_scan (map (\<lambda>l. (l, ?f l)) (l0 # ls)) (l0, ?f l0)")
  have pred: "predict_label_fp fp ?c
      = (Returns (l, s), snd (score_labels_fp fp (keys (C_w_count ?c)) ?c))"
    using ks res by (simp add: predict_label_fp_result)
  have all: "tag ` set rows = set (l0 # ls)" using labels ks by simp
  from max_scan_first_best [OF sorted res] pred show ?thesis
    by (simp only: fst_calc_log_prob_score_fp all) blast
qed

text \<open>
  The scenario of claim C1 is an instance: each of its two labels has a post with words.
\<close>

theorem predict_label_least_key_among_best_witness:
  "ex_rows \<noteq> []
   \<and> list_all (\<lambda>r. list_ex (\<lambda>r'. tag r' = tag r \<and> unique_words (content r') \<noteq> []) ex_rows)
        ex_rows
   \<and> (\<exists>l s c'.
        predict_label_fp exact_fpu
          (ex_trained_model\<lparr>correct_post := \<lparr>tag = ''math'', content = ''y''\<rparr>\<rparr>)
          = (Returns (l, s), c')
        \<and> l \<in> tag ` set ex_rows
        \<and> (\<forall>l'\<in>tag ` set ex_rows.
             \<not> dgt (fst (calc_log_prob_score_fp exact_fpu
                (ex_trained_model\<lparr>correct_post := \<lparr>tag = ''math'', content = ''y''\<rparr>\<rparr>) l')) s
             \<and> (fst (calc_log_prob_score_fp exact_fpu
                (ex_trained_model\<lparr>correct_post := \<lparr>tag = ''math'', content = ''y''\<rparr>\<rparr>) l') = s
               \<longrightarrow> l \<le> l')))"
proof -
  have h1: "ex_rows \<noteq> []"
    by (simp add: ex_rows_def)
  have h2: "\<forall>r\<in>set ex_rows. \<exists>r'\<in>set ex_rows. tag r' = tag r \<and> unique_words (content r') \<noteq> []"
    by (simp add: ex_rows_def unique_words_x_y unique_words_y_z)
  from predict_label_least_key_among_best [OF h1 h2, where fp = exact_fpu and tp = "Dbl 0"
      and vs = "Dbl 0" and q = "\<lparr>tag = ''math'', content = ''y''\<rparr>"]
  have "\<exists>l s c'.
        predict_label_fp exact_fpu
          (ex_trained_model\<lparr>correct_post := \<lparr>tag = ''math'', content = ''y''\<rparr>\<rparr>)
          = (Returns (l, s), c')
        \<and> l \<in> tag ` set ex_rows
        \<and> (\<forall>l'\<in>tag ` set ex_rows.
             \<not> dgt (fst (calc_log_prob_score_fp exact_fpu
                (ex_trained_model\<lparr>correct_post := \<lparr>tag = ''math'', content = ''y''\<rparr>\<rparr>) l')) s
             \<and> (fst (calc_log_prob_score_fp exact_fpu
                (ex_trained_model\<lparr>correct_post := \<lparr>tag = ''math'', content = ''y''\<rparr>\<rparr>) l') = s
               \<longrightarrow> l \<le> l'))"
    unfolding ex_trained_model_def [symmetric] by blast
  moreover have "list_all
      (\<lambda>r. list_ex (\<lambda>r'. tag r' = tag r \<and> unique_words (content r') \<noteq> []) ex_rows) ex_rows"
    using h2 by (simp add: list_all_iff list_ex_iff)
  ultimately show ?thesis using h1 by (intro conjI)
qed

text \<open>
  Claim C2 at a concrete input. The model of the end-to-end scenario is asked about the
  content "q x". \<^verbatim>\<open>predict_label\<close> leaves \<open>word_count\<close> with the new key \<open>q\<close>, and
  \<open>C_w_count\<close> with the new keys \<open>q\<close> and \<open>x\<close> under \<open>cs\<close> and \<open>q\<close> under \<open>math\<close>, each
  with the count 0: the accesses through \<^verbatim>\<open>operator[]\<close> in \<^verbatim>\<open>calc_log_likelihood\<close> insert
  them. The functions are documented with \<^verbatim>\<open>MODIFIES: -\<close>.
\<close>

theorem predict_label_inserts_keys:
  "word_count (snd (predict_label (ex_trained_model\<lparr>correct_post := \<lparr>tag = ''math'', content = ''q x''\<rparr>\<rparr>)))
     = [(''q'', Dbl 0), (''x'', Dbl 1), (''y'', Dbl 2), (''z'', Dbl 1)]
   \<and> word_count ex_trained_model = [(''x'', Dbl 1), (''y'', Dbl 2), (''z'', Dbl 1)]
   \<and> C_w_count (snd (predict_label (ex_trained_model\<lparr>correct_post := \<lparr>tag = ''math'', content = ''q x''\<rparr>\<rparr>)))
     = [(''cs'', [(''q'', Dbl 0), (''x'', Dbl 0), (''y'', Dbl 1), (''z'', Dbl 1)]),
        (''math'', [(''q'', Dbl 0), (''x'', Dbl 1), (''y'', Dbl 1)])]
   \<and> C_w_count ex_trained_model
     = [(''cs'', [(''y'', Dbl 1), (''z'', Dbl 1)]), (''math'', [(''x'', Dbl 1), (''y'', Dbl 1)])]"
  by (simp add: ex_model predict_label_def keys_def calc_log_prob_score_def calc_log_prior_def
      calc_log_likelihood_def subscript2_def subscript_def unique_words_q_x Let_def)

text \<open>
  Claim C3 at a concrete input. After training on no rows \<open>C_w_count\<close> is empty, the
  vector of scores stays empty, and \<^verbatim>\<open>predict_label\<close> reads its element 0: the outcome is
  undefined behaviour. No error is reported.
\<close>

theorem predict_label_empty_model:
  "fst (predict_label ((train_classifier (Classifier_new tp vs) [])\<lparr>correct_post := r\<rparr>))
     = Undefined_Behaviour"
  by (simp add: predict_label_def train_classifier_def Classifier_new_def keys_def)

text \<open>
  Claim C4. On a trained model, \<^verbatim>\<open>calc_log_likelihood\<close> returns
  \<open>ln (word_count[w] / total_posts)\<close> when the joint count of \<open>C\<close> and \<open>w\<close> is 0 and
  \<open>word_count[w] > 0\<close>; otherwise \<open>ln (1 / total_posts)\<close> when \<open>word_count[w]\<close> is 0;
  otherwise \<open>ln (joint_count[C][w] / label_count[C])\<close>. The counts are read as the maps
  hold them before the call, a missing entry being 0. A word with joint count 0 and a
  nonzero global count therefore takes the first branch.
\<close>

theorem calc_log_likelihood_three_way:
  "(let c = train_classifier (Classifier_new tp vs) rows in
    fst (calc_log_likelihood c C w) =
      (if joint_of (C_w_count c) C w = Dbl 0 \<and> dgt (count_of (word_count c) w) (Dbl 0) then
         dlog (ddiv (count_of (word_count c) w) (total_posts c))
       else if count_of (word_count c) w = Dbl 0 then
         dlog (ddiv (Dbl 1) (total_posts c))
       else
         dlog (ddiv (joint_of (C_w_count c) C w) (count_of (label_count c) C))))"
proof -
  have "counts_ok (word_count (train_classifier (Classifier_new tp vs) rows))"
    using train_classifier_inv [of tp vs rows] by (simp add: words_inv_def)
  then show ?thesis
    by (simp add: Let_def fst_calc_log_likelihood log_likelihood_of_def counts_ok_nonzero_iff)
qed

text \<open>
  The three branches of claim C4 on the model of the end-to-end scenario: \<open>z\<close> occurs only
  under \<open>cs\<close>, \<open>q\<close> occurs nowhere, \<open>x\<close> occurs under \<open>math\<close>.
\<close>

theorem calc_log_likelihood_three_way_witness:
  "fst (calc_log_likelihood ex_trained_model ''math'' ''z'') = Dbl (ln (1 / 2))
   \<and> fst (calc_log_likelihood ex_trained_model ''math'' ''q'') = Dbl (ln (1 / 2))
   \<and> fst (calc_log_likelihood ex_trained_model ''math'' ''x'') = Dbl (ln (1 / 1))"
  using calc_log_likelihood_three_way [of "Dbl 0" "Dbl 0" ex_rows "''math''" "''z''"]
    calc_log_likelihood_three_way [of "Dbl 0" "Dbl 0" ex_rows "''math''" "''q''"]
    calc_log_likelihood_three_way [of "Dbl 0" "Dbl 0" ex_rows "''math''" "''x''"]
  by (simp add: Let_def ex_trained_model_def [symmetric] ex_model joint_of_def count_of_def)

text \<open>
  Claim C5 at a concrete input. Trained on the rows (math, "") and (cs, "y"), the model
  has the keys \<open>cs\<close> and \<open>math\<close> in \<open>label_count\<close> but only \<open>cs\<close> in \<open>C_w_count\<close>: a post
  without words never reaches the statement that creates the entry of its label. The
  first loop of \<^verbatim>\<open>predict_label\<close>, commented "for each label in the training data", scores
  \<open>cs\<close> alone.
\<close>

theorem empty_content_label_not_scored:
  "keys (label_count (train_classifier (Classifier_new (Dbl 0) (Dbl 0)) ex_rows_empty_content))
     = [''cs'', ''math'']
   \<and> keys (C_w_count (train_classifier (Classifier_new (Dbl 0) (Dbl 0)) ex_rows_empty_content))
     = [''cs'']
   \<and> fst (score_labels
        (keys (C_w_count (train_classifier (Classifier_new (Dbl 0) (Dbl 0)) ex_rows_empty_content)))
        ((train_classifier (Classifier_new (Dbl 0) (Dbl 0)) ex_rows_empty_content)
           \<lparr>correct_post := \<lparr>tag = ''math'', content = ''''\<rparr>\<rparr>))
     = [(''cs'', Dbl (ln (1 / 2)))]"
  by (simp add: train_classifier_def train_post_def train_word_def ex_rows_empty_content_def
      Classifier_new_def unique_words_y unique_words_empty increment_def increment2_def subscript_def Let_def keys_def
      calc_log_prob_score_def calc_log_prior_def)

text \<open>
  Claim C6. \<^verbatim>\<open>calc_log_prob_score\<close> for the label \<open>C\<close> returns
  \<open>ln (label_count[C] / total_posts)\<close> plus the sum, over the set of unique words of the
  content of the current test row, of what \<^verbatim>\<open>calc_log_likelihood\<close> returns for \<open>C\<close> and the
  word. The sum ranges over a set, so each distinct word contributes once. This holds for
  every state of the classifier and every label.
\<close>

theorem calc_log_prob_score_sum:
  "fst (calc_log_prob_score c C) =
     dlog (ddiv (count_of (label_count c) C) (total_posts c))
     + (\<Sum>w\<in>set (unique_words (content (correct_post c))). fst (calc_log_likelihood c C w))"
  by (simp add: fst_calc_log_prob_score log_score_of_def log_prior_of_def
      fst_calc_log_likelihood sum_list_distinct_conv_sum_set [OF distinct_unique_words])

text \<open>
  Claim C7. After training a new classifier on any rows: the counts of \<open>label_count\<close>
  add up to \<open>total_posts\<close>; for every word \<open>w\<close> of \<open>word_count\<close> the joint counts of \<open>w\<close>
  over all labels add up to \<open>word_count[w]\<close>; every key of an inner map of \<open>C_w_count\<close> is
  a key of \<open>word_count\<close>; and \<open>vocab_size\<close> is the number of keys of \<open>word_count\<close>.
\<close>

theorem train_classifier_count_conservation:
  "(let c = train_classifier (Classifier_new tp vs) rows in
      (\<Sum>C\<leftarrow>keys (label_count c). count_of (label_count c) C) = total_posts c
    \<and> (\<forall>w\<in>set (keys (word_count c)).
          (\<Sum>C\<leftarrow>keys (C_w_count c). joint_of (C_w_count c) C w) = count_of (word_count c) w)
    \<and> (\<forall>e\<in>set (C_w_count c). set (keys (snd e)) \<subseteq> set (keys (word_count c)))
    \<and> vocab_size c = Dbl (real (card (set (keys (word_count c))))))"
proof -
  let ?c = "train_classifier (Classifier_new tp vs) rows"
  from train_classifier_inv [of tp vs rows]
  have w: "words_inv ?c" and l: "labels_inv ?c (length rows)"
    and t: "total_posts ?c = Dbl (real (length rows))"
    by simp_all
  have "(\<Sum>C\<leftarrow>keys (label_count ?c). count_of (label_count ?c) C) = total_posts ?c"
    using l t by (simp add: labels_inv_def map_count_of_keys)
  moreover have "(\<Sum>C\<leftarrow>keys (C_w_count ?c). joint_of (C_w_count ?c) C w)
      = count_of (word_count ?c) w" for w
    using w by (simp add: words_inv_def map_joint_of_keys)
  moreover have "\<forall>e\<in>set (C_w_count ?c). set (keys (snd e)) \<subseteq> set (keys (word_count ?c))"
    using w by (simp add: words_inv_def)
  moreover have "vocab_size ?c = Dbl (real (card (set (keys (word_count ?c)))))"
  proof -
    have "distinct (keys (word_count ?c))"
      using w by (simp add: words_inv_def strict_sorted_iff)
    then have "card (set (keys (word_count ?c))) = length (word_count ?c)"
      using distinct_card [of "keys (word_count ?c)"] by (simp add: keys_def)
    moreover have "vocab_size ?c = Dbl (real (length (word_count ?c)))"
      by (simp add: train_classifier_def Let_def)
    ultimately show ?thesis by simp
  qed
  ultimately show ?thesis by (simp add: Let_def)
qed

text \<open>Claim C7 on the model of the end-to-end scenario, for the word \<open>y\<close> and the label \<open>math\<close>.\<close>

theorem train_classifier_count_conservation_witness:
  "''y'' \<in> set (keys (word_count ex_trained_model))
   \<and> (\<Sum>C\<leftarrow>keys (C_w_count ex_trained_model). joint_of (C_w_count ex_trained_model) C ''y'') = Dbl 2
   \<and> count_of (word_count ex_trained_model) ''y'' = Dbl 2
   \<and> (''math'', [(''x'', Dbl 1), (''y'', Dbl 1)]) \<in> set (C_w_count ex_trained_model)
   \<and> set (keys [(''x'', Dbl 1), (''y'', Dbl 1)]) \<subseteq> set (keys (word_count ex_trained_model))
   \<and> (\<Sum>C\<leftarrow>keys (label_count ex_trained_model). count_of (label_count ex_trained_model) C) = Dbl 2
   \<and> total_posts ex_trained_model = Dbl 2 \<and> vocab_size ex_trained_model = Dbl 3"
proof -
  have y: "''y'' \<in> set (keys (word_count ex_trained_model))"
    by (simp add: ex_model keys_def)
  have m: "(''math'', [(''x'', Dbl 1), (''y'', Dbl 1)]) \<in> set (C_w_count ex_trained_model)"
    by (simp add: ex_model)
  have c: "count_of (word_count ex_trained_model) ''y'' = Dbl 2"
    "total_posts ex_trained_model = Dbl 2"
    "card (set (keys (word_count ex_trained_model))) = 3"
    by (simp_all add: ex_model count_of_def keys_def)
  from train_classifier_count_conservation [of "Dbl 0" "Dbl 0" ex_rows]
  have labels: "(\<Sum>C\<leftarrow>keys (label_count ex_trained_model). count_of (label_count ex_trained_model) C)
        = total_posts ex_trained_model"
    and joint: "\<forall>w\<in>set (keys (word_count ex_trained_model)).
          (\<Sum>C\<leftarrow>keys (C_w_count ex_trained_model). joint_of (C_w_count ex_trained_model) C w)
            = count_of (word_count ex_trained_model) w"
    and sub: "\<forall>e\<in>set (C_w_count ex_trained_model). set (keys (snd e)) \<subseteq> set (keys (word_count ex_trained_model))"
    and vocab: "vocab_size ex_trained_model = Dbl (real (card (set (keys (word_count ex_trained_model)))))"
    by (simp_all add: Let_def ex_trained_model_def)
  from bspec [OF joint y] bspec [OF sub m] labels vocab y m c
  show ?thesis by simp
qed

text \<open>
  Claim C8 at a concrete input. On the model of the end-to-end scenario,
  \<^verbatim>\<open>calc_log_prior\<close> for the label \<open>bio\<close>, which no training row carries, computes
  \<open>log (0 / 2)\<close> and returns minus infinity. It has no guard and reports no error.
\<close>

theorem calc_log_prior_unobserved_counterexample:
  "fst (calc_log_prior ex_trained_model ''bio'') = NegInf"
  by (simp add: calc_log_prior_def subscript_def ex_model)

text \<open>
  Claim C8 as the code has it. On a model trained on at least one row,
  \<^verbatim>\<open>calc_log_prior\<close> for a label that is not a key of \<open>label_count\<close> returns
  \<open>log (0 / total_posts)\<close>, which is minus infinity.
\<close>

theorem calc_log_prior_unobserved:
  assumes "rows \<noteq> []"
    and "C \<notin> set (keys (label_count (train_classifier (Classifier_new tp vs) rows)))"
  shows "fst (calc_log_prior (train_classifier (Classifier_new tp vs) rows) C) = NegInf"
proof -
  let ?c = "train_classifier (Classifier_new tp vs) rows"
  have "total_posts ?c = Dbl (real (length rows))"
    using train_classifier_inv [of tp vs rows] by simp
  moreover have "count_of (label_count ?c) C = Dbl 0"
    using assms(2) by (simp add: count_of_def map_of_None_keys [THEN iffD2])
  ultimately show ?thesis
    using assms(1) by (simp add: fst_calc_log_prior log_prior_of_def)
qed

text \<open>The label \<open>bio\<close> on the model of the end-to-end scenario is an instance of claim C8.\<close>

theorem calc_log_prior_unobserved_witness:
  "ex_rows \<noteq> [] \<and> ''bio'' \<notin> set (keys (label_count ex_trained_model))
   \<and> fst (calc_log_prior ex_trained_model ''bio'') = NegInf"
proof -
  have h1: "ex_rows \<noteq> []"
    by (simp add: ex_rows_def)
  have h2: "''bio'' \<notin> set (keys (label_count (train_classifier (Classifier_new (Dbl 0) (Dbl 0)) ex_rows)))"
    by (simp add: train_classifier_ex_rows keys_def)
  from calc_log_prior_unobserved [OF h1 h2] h1 h2 show ?thesis
    by (simp add: ex_trained_model_def)
qed

text \<open>
  Claim C9. Let the content \<open>d\<close> hold the words of the content of the row \<open>r\<close>, each one
  twice in a row. Training on a file in which \<open>r\<close> carries \<open>d\<close> instead of its content gives
  the same \<open>total_posts\<close>, \<open>vocab_size\<close>, \<open>word_count\<close>, \<open>label_count\<close> and \<open>C_w_count\<close>
  as training on the original file, whatever rows come before and after \<open>r\<close>.
\<close>

theorem train_classifier_doubled_words:
  assumes "extract_words d = concat (map (\<lambda>w. [w, w]) (extract_words (content r)))"
  shows "model_of (train_classifier c (pre @ r\<lparr>content := d\<rparr> # suf))
       = model_of (train_classifier c (pre @ r # suf))"
proof -
  let ?c0 = "c\<lparr>total_posts := Dbl 0\<rparr>"
  have "set (extract_words d) = set (extract_words (content r))"
    unfolding assms by (rule set_concat_doubled)
  then have uw: "unique_words d = unique_words (content r)"
    by (rule unique_words_cong)
  have "model_of (train_post (foldl train_post ?c0 pre) (r\<lparr>content := d\<rparr>))
      = model_of (train_post (foldl train_post ?c0 pre) r)"
    by (rule model_of_train_post) (simp_all add: uw)
  then have "model_of (foldl train_post
        (train_post (foldl train_post ?c0 pre) (r\<lparr>content := d\<rparr>)) suf)
      = model_of (foldl train_post (train_post (foldl train_post ?c0 pre) r) suf)"
    by (rule model_of_foldl_train_post)
  then have "model_of (foldl train_post ?c0 (pre @ r\<lparr>content := d\<rparr> # suf))
      = model_of (foldl train_post ?c0 (pre @ r # suf))"
    by simp
  then show ?thesis by (rule model_of_train_classifier)
qed

text \<open>Claim C9 on the end-to-end scenario, with "x  x y y" in place of "x y".\<close>

theorem train_classifier_doubled_words_witness:
  "extract_words ''x  x y y''
     = concat (map (\<lambda>w. [w, w]) (extract_words (content \<lparr>tag = ''math'', content = ''x y''\<rparr>)))
   \<and> model_of (train_classifier (Classifier_new (Dbl 0) (Dbl 0))
        ([] @ \<lparr>tag = ''math'', content = ''x y''\<rparr>\<lparr>content := ''x  x y y''\<rparr>
           # [\<lparr>tag = ''cs'', content = ''y z''\<rparr>]))
     = model_of ex_trained_model"
proof -
  have h: "extract_words ''x  x y y''
     = concat (map (\<lambda>w. [w, w]) (extract_words (content \<lparr>tag = ''math'', content = ''x y''\<rparr>)))"
    using extract_words_doubled by simp
  from train_classifier_doubled_words [OF h, of "Classifier_new (Dbl 0) (Dbl 0)" "[]"
      "[\<lparr>tag = ''cs'', content = ''y z''\<rparr>]"] h
  show ?thesis by (simp add: ex_trained_model_def ex_rows_def)
qed

text \<open>
  Claim C10. The elements of \<^verbatim>\<open>unique_words\<close> of a string are exactly its maximal runs of
  characters that are not whitespace, each one once. A string of whitespace only, the
  empty string among them, gives the empty set, and the empty string is never an element.
\<close>

theorem unique_words_maximal_runs:
  "set (unique_words s) = {w. is_word_of s w}
   \<and> distinct (unique_words s)
   \<and> (list_all isspace s \<longrightarrow> unique_words s = [])
   \<and> [] \<notin> set (unique_words s)"
proof -
  have "set (unique_words s) = {w. is_word_of s w}"
    by (simp add: set_unique_words set_extract_words)
  moreover have "list_all isspace s \<longrightarrow> unique_words s = []"
    by (simp add: unique_words_def extract_words_all_space)
  moreover have "\<not> is_word_of s []"
    by (simp add: is_word_of_def)
  ultimately show ?thesis by (simp add: distinct_unique_words)
qed

text \<open>
  Claim C10 on a string of the six whitespace characters, and on a string whose words are
  separated by a tab, a line feed and a carriage return.
\<close>

theorem unique_words_maximal_runs_witness:
  "list_all isspace [CHR '' '', CHR 0x09, CHR 0x0A, CHR 0x0B, CHR 0x0C, CHR 0x0D]
   \<and> unique_words [CHR '' '', CHR 0x09, CHR 0x0A, CHR 0x0B, CHR 0x0C, CHR 0x0D] = []
   \<and> {w. is_word_of [CHR '' '', CHR 0x09, CHR ''b'', CHR 0x0A, CHR ''a'', CHR ''c'', CHR 0x0D, CHR ''b''] w}
       = {''ac'', ''b''}"
proof -
  have h: "list_all isspace [CHR '' '', CHR 0x09, CHR 0x0A, CHR 0x0B, CHR 0x0C, CHR 0x0D]"
    by (simp add: isspace_def)
  from unique_words_maximal_runs [of "[CHR '' '', CHR 0x09, CHR 0x0A, CHR 0x0B, CHR 0x0C, CHR 0x0D]"]
    unique_words_maximal_runs [of "[CHR '' '', CHR 0x09, CHR ''b'', CHR 0x0A, CHR ''a'', CHR ''c'', CHR 0x0D, CHR ''b'']"]
    h
  show ?thesis by (simp add: unique_words_mixed_space)
qed

end
